theory Spec2Isabelle
  imports Complex_Main "HOL-Library.Word"
begin

section \<open>Real-time audio output manager\<close>

text \<open>
  A shallow embedding of \<^verbatim>\<open>bots/bot_controller/realtime_audio_output_manager.py\<close>.

  Conventions of the embedding.
  \<^item> A \<^verbatim>\<open>bytes\<close> object is a list of 8-bit words.
  \<^item> Sample rates are Python integers, hence \<open>int\<close>.
  \<^item> Timestamps and durations are Python floats; they are taken as exact reals, so the
    rounding of floating-point addition and subtraction is not part of the model.
  \<^item> Every reading of \<^verbatim>\<open>time.time()\<close> inside one call is the same value \<open>now\<close>,
    passed as an argument of the call.
  \<^item> An exception is a value of type \<open>py_error\<close>; a function that can raise returns a
    sum with the exception on the left.
  \<^item> A loop that may run forever returns an \<open>option\<close>, with \<open>None\<close> for "does not
    return".
\<close>

type_synonym byte = "8 word"

datatype py_error = ValueError | ZeroDivisionError | AudioopError | CallbackError

subsection \<open>Python primitives used by the module\<close>

text \<open>\<^verbatim>\<open>int(x)\<close> of a float truncates towards zero.\<close>

definition py_int :: "real \<Rightarrow> int" where
  "py_int x = (if 0 \<le> x then \<lfloor>x\<rfloor> else \<lceil>x\<rceil>)"

text \<open>
  The slices \<^verbatim>\<open>b[:n]\<close> and \<^verbatim>\<open>b[n:]\<close>: a negative bound counts from the end and is
  clipped at the start of the sequence.
\<close>

definition slice_to :: "'a list \<Rightarrow> int \<Rightarrow> 'a list" where
  "slice_to b n = (if 0 \<le> n then take (nat n) b else take (nat (int (length b) + n)) b)"

definition slice_from :: "'a list \<Rightarrow> int \<Rightarrow> 'a list" where
  "slice_from b n = (if 0 \<le> n then drop (nat n) b else drop (nat (int (length b) + n)) b)"

subsection \<open>State of a manager\<close>

text \<open>
  The worker thread referenced by \<^verbatim>\<open>self.audio_thread\<close> is recorded by where it stands
  in \<^verbatim>\<open>_process_audio_queue\<close>:
  \<^item> \<open>NoThread\<close>: the attribute is \<^verbatim>\<open>None\<close>;
  \<^item> \<open>Running\<close>: alive, at the head of the loop or blocked in \<^verbatim>\<open>audio_queue.get\<close>;
  \<^item> \<open>Holding c\<close>: alive, a chunk was taken from the queue and converted to \<open>c\<close>, the
    thread is in \<^verbatim>\<open>_wait_if_paused\<close> or at the test of the stop flag that follows it;
  \<^item> \<open>Ready c\<close>: alive, past that test with the flag not set, about to call the
    callback with \<open>c\<close>;
  \<^item> \<open>Finished\<close>: the function returned (stop flag or idle timeout);
  \<^item> \<open>Raised e\<close>: an exception left the function and ended the thread.
\<close>

datatype thread_state =
  NoThread | Running | Holding "byte list" | Ready "byte list" | Finished | Raised py_error

fun is_alive :: "thread_state \<Rightarrow> bool" where
  "is_alive Running = True"
| "is_alive (Holding c) = True"
| "is_alive (Ready c) = True"
| "is_alive NoThread = False"
| "is_alive Finished = False"
| "is_alive (Raised e) = False"

text \<open>
  The fields of \<^verbatim>\<open>RealtimeAudioOutputManager\<close>. The two locks guard no data of their
  own and have no field here. \<open>played\<close> is not a field of the class: it records, in order,
  the arguments of every call of \<^verbatim>\<open>play_raw_audio_callback\<close> that returned.
\<close>

record manager =
  sleep_time_between_chunks_seconds :: real
  audio_queue :: "(byte list \<times> int) list"
  audio_thread :: thread_state
  stop_audio_thread :: bool
  last_chunk_time :: real
  output_sample_rate :: int
  inner_chunk_buffer :: "byte list"
  pause_until_timestamp :: real
  played :: "(byte list \<times> int) list"

definition bytes_per_sample :: int where
  "bytes_per_sample = 2"

definition chunk_length_seconds :: real where
  "chunk_length_seconds = 1 / 10"

text \<open>\<^verbatim>\<open>__init__\<close>, called at time \<open>now\<close>.\<close>

definition init :: "real \<Rightarrow> real \<Rightarrow> int \<Rightarrow> manager" where
  "init now sleep_time rate =
     \<lparr>sleep_time_between_chunks_seconds = sleep_time,
      audio_queue = [],
      audio_thread = NoThread,
      stop_audio_thread = False,
      last_chunk_time = now,
      output_sample_rate = rate,
      inner_chunk_buffer = [],
      pause_until_timestamp = 0,
      played = []\<rparr>"

subsection \<open>Pause helpers\<close>

definition pause_for :: "real \<Rightarrow> real \<Rightarrow> manager \<Rightarrow> manager" where
  "pause_for now duration_seconds m =
     (if duration_seconds \<le> 0 then m
      else let pause_until = now + duration_seconds in
        if pause_until > pause_until_timestamp m
        then m\<lparr>pause_until_timestamp := pause_until\<rparr>
        else m)"

definition remaining_pause_time :: "real \<Rightarrow> manager \<Rightarrow> real" where
  "remaining_pause_time now m = max (pause_until_timestamp m - now) 0"

text \<open>
  \<^verbatim>\<open>_wait_if_paused\<close>, run with nothing else happening: \<^verbatim>\<open>time.sleep(s)\<close> moves the
  time by \<open>s\<close>, and the result is the time at which the loop is left.
\<close>

function wait_if_paused :: "real \<Rightarrow> manager \<Rightarrow> real" where
  "wait_if_paused now m =
     (if stop_audio_thread m then now
      else let remaining = remaining_pause_time now m in
        if remaining \<le> 0 then now
        else wait_if_paused (now + min remaining (5 / 100)) m)"
  by pat_completeness auto
termination
proof (relation "measure (\<lambda>(now, m). nat \<lceil>(pause_until_timestamp m - now) * 20\<rceil>)")
  show "wf (measure (\<lambda>(now, m). nat \<lceil>(pause_until_timestamp m - now) * 20\<rceil>))" by simp
next
  fix now :: real and m :: manager and x :: real
  assume run: "\<not> stop_audio_thread m" and x: "x = remaining_pause_time now m" and pos: "\<not> x \<le> 0"
  let ?d = "pause_until_timestamp m - now"
  from x pos have d: "0 < ?d" and xd: "x = ?d" by (auto simp: remaining_pause_time_def max_def split: if_splits)
  have "\<lceil>(pause_until_timestamp m - (now + min x (5 / 100))) * 20\<rceil> < \<lceil>?d * 20\<rceil>"
  proof (cases "x \<le> 5 / 100")
    case True
    then have "min x (5 / 100) = x" by simp
    with xd have "(pause_until_timestamp m - (now + min x (5 / 100))) * 20 = 0" by simp
    moreover from d have "0 < \<lceil>?d * 20\<rceil>" by simp
    ultimately show ?thesis by simp
  next
    case False
    then have "min x (5 / 100) = 5 / 100" by simp
    then have "(pause_until_timestamp m - (now + min x (5 / 100))) * 20 = ?d * 20 - 1"
      by (simp add: algebra_simps)
    moreover have "\<lceil>?d * 20 - 1\<rceil> = \<lceil>?d * 20\<rceil> - 1" by (rule ceiling_diff_one)
    ultimately show ?thesis by (simp only:)
  qed
  moreover from d have "0 < \<lceil>?d * 20\<rceil>" by simp
  ultimately show "((now + min x (5 / 100), m), (now, m))
      \<in> measure (\<lambda>(now, m). nat \<lceil>(pause_until_timestamp m - now) * 20\<rceil>)"
    by simp
qed

declare wait_if_paused.simps [simp del]

subsection \<open>Sample-rate conversion\<close>

text \<open>
  A 16-bit sample is kept as its two bytes in buffer order. \<^verbatim>\<open>np.frombuffer\<close> and
  \<^verbatim>\<open>tobytes\<close> use the same (native) byte order and the code never looks at the numeric
  value of a sample, so the pair of bytes is all that matters.
  \<^verbatim>\<open>np.frombuffer(chunk, dtype=np.int16)\<close> raises \<^verbatim>\<open>ValueError\<close> when the length of
  the buffer is not a multiple of the element size.
\<close>

type_synonym sample = "byte \<times> byte"

fun frombuffer_int16 :: "byte list \<Rightarrow> py_error + sample list" where
  "frombuffer_int16 [] = Inr []"
| "frombuffer_int16 [a] = Inl ValueError"
| "frombuffer_int16 (a # b # rest) =
     (case frombuffer_int16 rest of
        Inl e \<Rightarrow> Inl e
      | Inr samples \<Rightarrow> Inr ((a, b) # samples))"

text \<open>\<^verbatim>\<open>np.repeat(samples, ratio)\<close>: every element \<open>ratio\<close> times, in order.\<close>

definition np_repeat :: "'a list \<Rightarrow> int \<Rightarrow> 'a list" where
  "np_repeat samples ratio = concat (map (replicate (nat ratio)) samples)"

definition tobytes :: "sample list \<Rightarrow> byte list" where
  "tobytes samples = concat (map (\<lambda>(a, b). [a, b]) samples)"

text \<open>
  \<^verbatim>\<open>audioop.ratecv\<close> is a library routine outside the repository. It is a parameter of
  the model: \<open>ratecv fragment width nchannels inrate outrate\<close> is the converted fragment
  (the first component of the pair the routine returns, with the state argument \<^verbatim>\<open>None\<close>),
  or the exception it raises.
\<close>

type_synonym ratecv_fn = "byte list \<Rightarrow> int \<Rightarrow> int \<Rightarrow> int \<Rightarrow> int \<Rightarrow> py_error + byte list"

definition SAMPLE_WIDTH :: int where
  "SAMPLE_WIDTH = 2"

definition CHANNELS :: int where
  "CHANNELS = 1"

definition upsample :: "ratecv_fn \<Rightarrow> byte list \<Rightarrow> int \<Rightarrow> int \<Rightarrow> py_error + byte list" where
  "upsample ratecv chunk src_rate dst_rate =
     (if src_rate = dst_rate then Inr chunk
      else ratecv chunk SAMPLE_WIDTH CHANNELS src_rate dst_rate)"

text \<open>
  \<^verbatim>\<open>upsample_chunk_to_output_sample_rate\<close>. Python's \<^verbatim>\<open>//\<close> and \<^verbatim>\<open>%\<close> on integers
  round towards minus infinity, as \<open>div\<close> and \<open>mod\<close> on \<open>int\<close> do; with a zero divisor
  they raise \<^verbatim>\<open>ZeroDivisionError\<close>.
\<close>

definition upsample_chunk_to_output_sample_rate ::
    "ratecv_fn \<Rightarrow> manager \<Rightarrow> byte list \<Rightarrow> int \<Rightarrow> py_error + byte list" where
  "upsample_chunk_to_output_sample_rate ratecv m chunk sample_rate =
     (if sample_rate = output_sample_rate m then Inr chunk
      else if sample_rate = 0 then Inl ZeroDivisionError
      else
        let ratio = output_sample_rate m div sample_rate in
        if output_sample_rate m mod sample_rate \<noteq> 0 \<or> ratio \<le> 1
        then upsample ratecv chunk sample_rate (output_sample_rate m)
        else
          (case frombuffer_int16 chunk of
             Inl e \<Rightarrow> Inl e
           | Inr samples \<Rightarrow> Inr (tobytes (np_repeat samples ratio))))"

subsection \<open>Accumulating chunks into frames\<close>

text \<open>
  \<^verbatim>\<open>_start_audio_thread\<close>: the new thread starts at the head of the loop of
  \<^verbatim>\<open>_process_audio_queue\<close>.
\<close>

definition start_audio_thread :: "manager \<Rightarrow> manager" where
  "start_audio_thread m = m\<lparr>stop_audio_thread := False, audio_thread := Running\<rparr>"

text \<open>
  \<^verbatim>\<open>add_chunk_inner\<close>. Both tests of the thread are kept, the second one being the test
  made with \<^verbatim>\<open>thread_lock\<close> held.
\<close>

definition add_chunk_inner :: "real \<Rightarrow> byte list \<Rightarrow> int \<Rightarrow> manager \<Rightarrow> manager" where
  "add_chunk_inner now chunk sample_rate m =
     (let m1 = m\<lparr>audio_queue := audio_queue m @ [(chunk, sample_rate)],
                 last_chunk_time := now\<rparr>
      in if \<not> (audio_thread m1 = NoThread \<or> \<not> is_alive (audio_thread m1)) then m1
         else if audio_thread m1 = NoThread \<or> \<not> is_alive (audio_thread m1)
              then start_audio_thread m1
              else m1)"

text \<open>
  \<^verbatim>\<open>chunk_size_bytes = int(self.bytes_per_sample * self.chunk_length_seconds * sample_rate)\<close>,
  with the product taken in the reals. (The float product \<^verbatim>\<open>2 * 0.1\<close> is the float
  nearest to one fifth, and for an integer rate below \<open>2^50\<close> in magnitude the rounded
  float product has the same truncation as the exact one.)
\<close>

definition chunk_size_bytes :: "int \<Rightarrow> int" where
  "chunk_size_bytes sample_rate =
     py_int (real_of_int bytes_per_sample * chunk_length_seconds * real_of_int sample_rate)"

text \<open>
  The \<^verbatim>\<open>while\<close> loop of \<^verbatim>\<open>add_chunk\<close>: its body, and the loop. Nothing in the source
  bounds the number of iterations, so the result of the loop is an option: \<open>None\<close> when
  it never ends.
\<close>

definition add_chunk_body :: "real \<Rightarrow> int \<Rightarrow> int \<Rightarrow> manager \<Rightarrow> manager" where
  "add_chunk_body now size_bytes sample_rate m =
     (add_chunk_inner now (slice_to (inner_chunk_buffer m) size_bytes) sample_rate m)
       \<lparr>inner_chunk_buffer := slice_from (inner_chunk_buffer m) size_bytes\<rparr>"

partial_function (option) add_chunk_loop :: "real \<Rightarrow> int \<Rightarrow> int \<Rightarrow> manager \<Rightarrow> manager option" where
  "add_chunk_loop now size_bytes sample_rate m =
     (if int (length (inner_chunk_buffer m)) \<ge> size_bytes
      then add_chunk_loop now size_bytes sample_rate (add_chunk_body now size_bytes sample_rate m)
      else Some m)"

definition add_chunk :: "real \<Rightarrow> byte list \<Rightarrow> int \<Rightarrow> manager \<Rightarrow> manager option" where
  "add_chunk now chunk sample_rate m =
     (let m1 = (if now - last_chunk_time m > 15 / 100 then m\<lparr>inner_chunk_buffer := []\<rparr> else m);
          m2 = m1\<lparr>last_chunk_time := now\<rparr>;
          m3 = m2\<lparr>inner_chunk_buffer := inner_chunk_buffer m2 @ chunk\<rparr>
      in add_chunk_loop now (chunk_size_bytes sample_rate) sample_rate m3)"

subsection \<open>The playback worker\<close>

text \<open>
  \<^verbatim>\<open>play_raw_audio_callback\<close> is supplied by the caller. Of a call only its outcome
  matters here: \<open>None\<close> when it returns, \<open>Some e\<close> when it raises \<open>e\<close>.
\<close>

type_synonym callback = "byte list \<Rightarrow> int \<Rightarrow> py_error option"

text \<open>
  \<^verbatim>\<open>_process_audio_queue\<close> is cut into steps at the places where what the thread does
  next depends on what other threads have done in the meantime. No lock is held between
  the steps, so calls of other threads can come between any two of them.

  \<open>worker_take\<close> is the call \<^verbatim>\<open>audio_queue.get(timeout=1.0)\<close> and the conversion, for a
  thread that has passed the test of the stop flag at the head of the loop. On an empty
  queue the call of \<^verbatim>\<open>get\<close> raises \<^verbatim>\<open>queue.Empty\<close>, and \<open>now\<close> is the time at which the
  handler runs. The only handler of the loop is the one for \<^verbatim>\<open>queue.Empty\<close>: any other
  exception leaves the function and ends the thread.
\<close>

definition worker_take :: "ratecv_fn \<Rightarrow> real \<Rightarrow> manager \<Rightarrow> manager" where
  "worker_take ratecv now m =
     (if audio_thread m \<noteq> Running then m
      else
        (case audio_queue m of
           [] \<Rightarrow>
             if last_chunk_time m \<noteq> 0 \<and> now - last_chunk_time m > 10
             then m\<lparr>audio_thread := Finished\<rparr>
             else m
         | (chunk, sample_rate) # rest \<Rightarrow>
             (case upsample_chunk_to_output_sample_rate ratecv m chunk sample_rate of
                Inl e \<Rightarrow> m\<lparr>audio_queue := rest, audio_thread := Raised e\<rparr>
              | Inr chunk_upsampled \<Rightarrow>
                  m\<lparr>audio_queue := rest, audio_thread := Holding chunk_upsampled\<rparr>)))"

text \<open>
  \<open>worker_get\<close> runs the thread from the head of the loop: the test of the stop flag,
  then \<open>worker_take\<close>.
\<close>

definition worker_get :: "ratecv_fn \<Rightarrow> real \<Rightarrow> manager \<Rightarrow> manager" where
  "worker_get ratecv now m =
     (if audio_thread m \<noteq> Running then m
      else if stop_audio_thread m then m\<lparr>audio_thread := Finished\<rparr>
      else worker_take ratecv now m)"

text \<open>
  \<open>worker_wait\<close> runs a thread that holds a converted chunk, at time \<open>now\<close>:
  \<^verbatim>\<open>_wait_if_paused\<close> returns when the stop flag is set or no pause remains, and the flag
  is tested again (\<^verbatim>\<open>if self.stop_audio_thread: break\<close>). While a pause remains the
  thread stays where it is, so that in a run other calls can come while the worker
  waits; the time at which \<open>wait_if_paused\<close> ends is one at which the wait is over (lemma
  \<open>worker_play_after_wait\<close> below).

  \<open>worker_call\<close> runs a thread that has passed this test: the callback is called, and the
  thread is back at the head of the loop (\<^verbatim>\<open>_sleep_with_interrupts\<close> changes nothing but
  the time). The flag is not read again before the call, so a flag set after the test
  does not stop the call.

  \<open>worker_play\<close> is the two steps with nothing of another thread in between.
\<close>

definition worker_wait :: "real \<Rightarrow> manager \<Rightarrow> manager" where
  "worker_wait now m =
     (case audio_thread m of
        Holding chunk_upsampled \<Rightarrow>
          if stop_audio_thread m then m\<lparr>audio_thread := Finished\<rparr>
          else if remaining_pause_time now m > 0 then m
          else m\<lparr>audio_thread := Ready chunk_upsampled\<rparr>
      | _ \<Rightarrow> m)"

definition worker_call :: "callback \<Rightarrow> manager \<Rightarrow> manager" where
  "worker_call cb m =
     (case audio_thread m of
        Ready chunk_upsampled \<Rightarrow>
          (case cb chunk_upsampled (output_sample_rate m) of
             Some e \<Rightarrow> m\<lparr>audio_thread := Raised e\<rparr>
           | None \<Rightarrow>
               m\<lparr>played := played m @ [(chunk_upsampled, output_sample_rate m)],
                 audio_thread := Running\<rparr>)
      | _ \<Rightarrow> m)"

definition worker_play :: "callback \<Rightarrow> real \<Rightarrow> manager \<Rightarrow> manager" where
  "worker_play cb now m = worker_call cb (worker_wait now m)"

subsection \<open>Cleanup\<close>

text \<open>
  \<^verbatim>\<open>cleanup\<close> runs in the thread of its caller while the worker runs in its own, and it
  holds no lock that the worker takes. Its statements are therefore steps of their own:
  setting the stop flag, one iteration of the loop that empties the queue, and the rest,
  from the end of that loop on. \<^verbatim>\<open>self.audio_thread.join()\<close> returns when the thread has
  ended, so the last step can be taken only when the loop has found the queue empty and
  no thread is alive.
\<close>

definition cleanup_stop :: "manager \<Rightarrow> manager" where
  "cleanup_stop m = m\<lparr>stop_audio_thread := True\<rparr>"

definition cleanup_drain_item :: "manager \<Rightarrow> manager" where
  "cleanup_drain_item m = m\<lparr>audio_queue := tl (audio_queue m)\<rparr>"

definition cleanup_join :: "manager \<Rightarrow> manager option" where
  "cleanup_join m =
     (if audio_queue m = [] \<and> \<not> is_alive (audio_thread m)
      then Some (m\<lparr>pause_until_timestamp := 0\<rparr>)
      else None)"

text \<open>
  What the join waits for when it is called with the stop flag set: a thread past the
  test of the flag calls the callback; after that, and from every other place, a live
  thread reads the flag before it does anything else, and ends (lemma
  \<open>worker_steps_when_stopped\<close> below).
\<close>

definition thread_join :: "callback \<Rightarrow> manager \<Rightarrow> manager" where
  "thread_join cb m =
     (let m1 = worker_call cb m
      in if is_alive (audio_thread m1) then m1\<lparr>audio_thread := Finished\<rparr> else m1)"

text \<open>
  \<^verbatim>\<open>cleanup\<close> as one step: the worker takes no step between the setting of the flag and
  the join, and takes its last steps during the join.
\<close>

definition cleanup :: "callback \<Rightarrow> manager \<Rightarrow> manager" where
  "cleanup cb m =
     (let m1 = m\<lparr>stop_audio_thread := True\<rparr>;
          m2 = m1\<lparr>audio_queue := []\<rparr>;
          m3 = (if audio_thread m2 \<noteq> NoThread \<and> is_alive (audio_thread m2)
                then thread_join cb m2 else m2)
      in m3\<lparr>pause_until_timestamp := 0\<rparr>)"

subsection \<open>Runs\<close>

text \<open>
  A run is a sequence of calls of the public operations, of steps of the worker and of
  steps of \<^verbatim>\<open>cleanup\<close>, one after the other. A step that does not return ends the run
  with \<open>None\<close>: a call of \<^verbatim>\<open>add_chunk\<close> whose loop never ends, and the last step of
  \<^verbatim>\<open>cleanup\<close> while the queue is not empty or the worker is alive.

  The state \<open>Running\<close> does not tell whether the thread has passed the test of the stop
  flag at the head of the loop. A run can take \<open>WorkerGet\<close> or \<open>WorkerTake\<close> for every
  running thread, so the runs cover both cases; what holds for all runs holds for the
  thread wherever it stands.
\<close>

datatype event =
    AddChunk real "byte list" int
  | AddChunkInner real "byte list" int
  | PauseFor real real
  | Cleanup
  | WorkerGet real
  | WorkerPlay real
  | WorkerTake real
  | WorkerWait real
  | WorkerCall
  | CleanupStop
  | CleanupDrainItem
  | CleanupJoin

fun step :: "ratecv_fn \<Rightarrow> callback \<Rightarrow> event \<Rightarrow> manager \<Rightarrow> manager option" where
  "step ratecv cb (AddChunk now chunk sample_rate) m = add_chunk now chunk sample_rate m"
| "step ratecv cb (AddChunkInner now chunk sample_rate) m =
     Some (add_chunk_inner now chunk sample_rate m)"
| "step ratecv cb (PauseFor now duration_seconds) m = Some (pause_for now duration_seconds m)"
| "step ratecv cb Cleanup m = Some (cleanup cb m)"
| "step ratecv cb (WorkerGet now) m = Some (worker_get ratecv now m)"
| "step ratecv cb (WorkerPlay now) m = Some (worker_play cb now m)"
| "step ratecv cb (WorkerTake now) m = Some (worker_take ratecv now m)"
| "step ratecv cb (WorkerWait now) m = Some (worker_wait now m)"
| "step ratecv cb WorkerCall m = Some (worker_call cb m)"
| "step ratecv cb CleanupStop m = Some (cleanup_stop m)"
| "step ratecv cb CleanupDrainItem m = Some (cleanup_drain_item m)"
| "step ratecv cb CleanupJoin m = cleanup_join m"

fun run :: "ratecv_fn \<Rightarrow> callback \<Rightarrow> event list \<Rightarrow> manager \<Rightarrow> manager option" where
  "run ratecv cb [] m = Some m"
| "run ratecv cb (e # es) m =
     (case step ratecv cb e m of None \<Rightarrow> None | Some m' \<Rightarrow> run ratecv cb es m')"

fun adds_chunk :: "event \<Rightarrow> bool" where
  "adds_chunk (AddChunk now chunk sample_rate) = True"
| "adds_chunk (AddChunkInner now chunk sample_rate) = True"
| "adds_chunk e = False"

text \<open>The steps of the worker, and the steps that can come while \<^verbatim>\<open>cleanup\<close> runs.\<close>

fun worker_step :: "event \<Rightarrow> bool" where
  "worker_step (WorkerGet now) = True"
| "worker_step (WorkerPlay now) = True"
| "worker_step (WorkerTake now) = True"
| "worker_step (WorkerWait now) = True"
| "worker_step WorkerCall = True"
| "worker_step e = False"

definition during_cleanup :: "event \<Rightarrow> bool" where
  "during_cleanup e \<longleftrightarrow> worker_step e \<or> e = CleanupDrainItem"

text \<open>
  The call of the callback that is still to come from a thread that has passed the test
  of the stop flag, as the callback will receive it if it returns.
\<close>

definition last_call :: "callback \<Rightarrow> manager \<Rightarrow> (byte list \<times> int) list" where
  "last_call cb m =
     (case audio_thread m of
        Ready c \<Rightarrow> (if cb c (output_sample_rate m) = None then [(c, output_sample_rate m)] else [])
      | _ \<Rightarrow> [])"

subsection \<open>Notions used to state the properties\<close>

text \<open>The full frames of \<open>n\<close> items at the front of a sequence, in order.\<close>

definition frames_of :: "nat \<Rightarrow> 'a list \<Rightarrow> 'a list list" where
  "frames_of n xs = map (\<lambda>i. take n (drop (i * n) xs)) [0..<length xs div n]"

text \<open>The bytes given to \<^verbatim>\<open>add_chunk\<close> in a run, and the times of these calls.\<close>

fun added_bytes :: "event list \<Rightarrow> byte list" where
  "added_bytes [] = []"
| "added_bytes (AddChunk now chunk sample_rate # es) = chunk @ added_bytes es"
| "added_bytes (e # es) = added_bytes es"

fun add_chunk_times :: "event list \<Rightarrow> real list" where
  "add_chunk_times [] = []"
| "add_chunk_times (AddChunk now chunk sample_rate # es) = now # add_chunk_times es"
| "add_chunk_times (e # es) = add_chunk_times es"

text \<open>No call comes more than 150 ms after the one before it, the first one after \<open>t0\<close>.\<close>

fun gaps_within :: "real \<Rightarrow> real list \<Rightarrow> bool" where
  "gaps_within t0 [] = True"
| "gaps_within t0 (t # ts) = (\<not> t - t0 > 15 / 100 \<and> gaps_within t ts)"

text \<open>
  The frames that the calls of \<^verbatim>\<open>add_chunk\<close> in a run complete, in order, for frames
  of \<open>n\<close> bytes: \<open>t0\<close> is the time of the call before and \<open>b\<close> the bytes it has left
  over, which are dropped when the next call comes more than 150 ms later.
\<close>

fun stream_frames :: "nat \<Rightarrow> real \<Rightarrow> byte list \<Rightarrow> event list \<Rightarrow> byte list list" where
  "stream_frames n t0 b [] = []"
| "stream_frames n t0 b (AddChunk now chunk sample_rate # es) =
     (let data = (if now - t0 > 15 / 100 then [] else b) @ chunk
      in frames_of n data @ stream_frames n now (drop (length data div n * n) data) es)"
| "stream_frames n t0 b (e # es) = stream_frames n t0 b es"

text \<open>
  The events of a run that feeds one stream of rate \<open>r\<close> through \<^verbatim>\<open>add_chunk\<close>: calls of
  \<^verbatim>\<open>add_chunk\<close> with rate \<open>r\<close>, pauses and steps of the worker.
\<close>

fun stream_event :: "int \<Rightarrow> event \<Rightarrow> bool" where
  "stream_event r (AddChunk now chunk sample_rate) = (sample_rate = r)"
| "stream_event r (AddChunkInner now chunk sample_rate) = False"
| "stream_event r (PauseFor now duration_seconds) = True"
| "stream_event r Cleanup = False"
| "stream_event r (WorkerGet now) = True"
| "stream_event r (WorkerPlay now) = True"
| "stream_event r (WorkerTake now) = True"
| "stream_event r (WorkerWait now) = True"
| "stream_event r WorkerCall = True"
| "stream_event r CleanupStop = False"
| "stream_event r CleanupDrainItem = False"
| "stream_event r CleanupJoin = False"

text \<open>
  What is still to be played, in order, as the callback will receive it when every frame
  \<open>c\<close> in the queue converts to \<open>conv c\<close>: the chunk in the hands of the worker, then the
  frames in the queue.
\<close>

definition pending :: "(byte list \<Rightarrow> byte list) \<Rightarrow> manager \<Rightarrow> (byte list \<times> int) list" where
  "pending conv m =
     (case audio_thread m of
        Holding u \<Rightarrow> [(u, output_sample_rate m)]
      | Ready u \<Rightarrow> [(u, output_sample_rate m)]
      | _ \<Rightarrow> []) @
     map (\<lambda>(c, r). (conv c, output_sample_rate m)) (audio_queue m)"

text \<open>
  The state of a manager that is fed one stream of rate \<open>r\<close>: a live worker has not been
  told to stop, frames wait only while a worker is alive, the queue holds frames of
  rate \<open>r\<close> and of the frame size of \<open>r\<close>, and the buffer holds less than one frame.
\<close>

definition stream_state :: "int \<Rightarrow> manager \<Rightarrow> bool" where
  "stream_state r m \<longleftrightarrow>
     (is_alive (audio_thread m) \<longrightarrow> \<not> stop_audio_thread m) \<and>
     (audio_queue m \<noteq> [] \<longrightarrow> is_alive (audio_thread m)) \<and>
     list_all (\<lambda>(c, r'). r' = r \<and> int (length c) = chunk_size_bytes r) (audio_queue m) \<and>
     int (length (inner_chunk_buffer m)) < chunk_size_bytes r"

text \<open>The steps that let the worker take and play \<open>k\<close> frames at time \<open>now\<close>.\<close>

definition drain :: "real \<Rightarrow> nat \<Rightarrow> event list" where
  "drain now k = concat (replicate k [WorkerGet now, WorkerPlay now])"

text \<open>
  Stand-ins for the two routines that come from outside, for runs at concrete inputs: a
  conversion routine that returns the fragment as it is, a callback that returns, and a
  callback that raises on one given chunk and returns on every other.
\<close>

definition ratecv_unchanged :: ratecv_fn where
  "ratecv_unchanged fragment width nchannels inrate outrate = Inr fragment"

definition callback_returns :: callback where
  "callback_returns chunk sample_rate = None"

definition callback_raises_on :: "byte list \<Rightarrow> callback" where
  "callback_raises_on bad chunk sample_rate = (if chunk = bad then Some CallbackError else None)"

subsection \<open>Starting the worker from several threads\<close>

text \<open>
  \<^verbatim>\<open>add_chunk_inner\<close> may be called from several threads at once. For the number of
  workers only a part of the state matters: which thread object \<^verbatim>\<open>self.audio_thread\<close>
  refers to, which thread objects are alive, who holds \<^verbatim>\<open>thread_lock\<close>, and where each
  caller stands in \<^verbatim>\<open>add_chunk_inner\<close>:
  \<^item> \<open>Outside\<close>: not in a call;
  \<^item> \<open>AtCheck\<close>: the chunk is in the queue, the first test of the thread comes next;
  \<^item> \<open>AtLock\<close>: the first test found no live worker, the caller waits for the lock;
  \<^item> \<open>AtRecheck\<close>: the caller holds the lock, the second test comes next;
  \<^item> \<open>AtCreate\<close>: the second test found no live worker; \<^verbatim>\<open>_start_audio_thread\<close> is
    about to create the thread object and to assign it to \<^verbatim>\<open>self.audio_thread\<close>;
  \<^item> \<open>AtStart\<close>: the object is assigned, \<^verbatim>\<open>self.audio_thread.start()\<close> comes next;
  \<^item> \<open>AtRelease\<close>: the \<^verbatim>\<open>with\<close> block is about to release the lock.
  Callers and thread objects are numbered. Each step below is taken as one atomic action,
  and a run interleaves the steps of the callers and the ending of workers in any order.
\<close>

datatype caller_pc = Outside | AtCheck | AtLock | AtRecheck | AtCreate | AtStart | AtRelease

record lifecycle =
  thread_ref :: "nat option"
  live :: "nat set"
  created :: nat
  lock_holder :: "nat option"
  pc :: "nat \<Rightarrow> caller_pc"

definition lifecycle_init :: lifecycle where
  "lifecycle_init =
     \<lparr>thread_ref = None, live = {}, created = 0, lock_holder = None, pc = (\<lambda>i. Outside)\<rparr>"

text \<open>\<^verbatim>\<open>self.audio_thread.is_alive()\<close>, for a reference that is not \<^verbatim>\<open>None\<close>.\<close>

definition ref_alive :: "lifecycle \<Rightarrow> bool" where
  "ref_alive s = (case thread_ref s of None \<Rightarrow> False | Some t \<Rightarrow> t \<in> live s)"

text \<open>
  The steps: a caller enters \<^verbatim>\<open>add_chunk_inner\<close> (and puts its chunk in the queue), makes
  the first test, acquires the lock, makes the second test, creates the thread object,
  starts it, releases the lock; a live worker ends (idle timeout, stop flag or exception).
\<close>

datatype action =
    Enter nat
  | Check nat
  | Acquire nat
  | Recheck nat
  | Create nat
  | Start nat
  | Release nat
  | WorkerEnds nat

text \<open>One step; \<open>None\<close> when the step cannot be taken in the state.\<close>

fun lifecycle_step :: "action \<Rightarrow> lifecycle \<Rightarrow> lifecycle option" where
  "lifecycle_step (Enter i) s =
     (if pc s i = Outside then Some (s\<lparr>pc := (pc s)(i := AtCheck)\<rparr>) else None)"
| "lifecycle_step (Check i) s =
     (if pc s i = AtCheck
      then Some (s\<lparr>pc := (pc s)(i := (if \<not> (thread_ref s = None \<or> \<not> ref_alive s)
                                        then Outside else AtLock))\<rparr>)
      else None)"
| "lifecycle_step (Acquire i) s =
     (if pc s i = AtLock \<and> lock_holder s = None
      then Some (s\<lparr>lock_holder := Some i, pc := (pc s)(i := AtRecheck)\<rparr>)
      else None)"
| "lifecycle_step (Recheck i) s =
     (if pc s i = AtRecheck
      then Some (s\<lparr>pc := (pc s)(i := (if thread_ref s = None \<or> \<not> ref_alive s
                                        then AtCreate else AtRelease))\<rparr>)
      else None)"
| "lifecycle_step (Create i) s =
     (if pc s i = AtCreate
      then Some (s\<lparr>thread_ref := Some (created s), created := Suc (created s),
                   pc := (pc s)(i := AtStart)\<rparr>)
      else None)"
| "lifecycle_step (Start i) s =
     (if pc s i = AtStart
      then Some (s\<lparr>live := (case thread_ref s of None \<Rightarrow> live s | Some t \<Rightarrow> insert t (live s)),
                   pc := (pc s)(i := AtRelease)\<rparr>)
      else None)"
| "lifecycle_step (Release i) s =
     (if pc s i = AtRelease
      then Some (s\<lparr>lock_holder := None, pc := (pc s)(i := Outside)\<rparr>)
      else None)"
| "lifecycle_step (WorkerEnds t) s =
     (if t \<in> live s then Some (s\<lparr>live := live s - {t}\<rparr>) else None)"

fun lifecycle_run :: "action list \<Rightarrow> lifecycle \<Rightarrow> lifecycle option" where
  "lifecycle_run [] s = Some s"
| "lifecycle_run (a # as) s =
     (case lifecycle_step a s of None \<Rightarrow> None | Some s' \<Rightarrow> lifecycle_run as s')"

text \<open>
  What the lock keeps true: every live thread is the one \<^verbatim>\<open>self.audio_thread\<close> refers
  to, the callers between acquiring and releasing are the holder of the lock, and no
  worker is alive while a caller is about to create or start one.
\<close>

fun holds_lock :: "caller_pc \<Rightarrow> bool" where
  "holds_lock AtRecheck = True"
| "holds_lock AtCreate = True"
| "holds_lock AtStart = True"
| "holds_lock AtRelease = True"
| "holds_lock Outside = False"
| "holds_lock AtCheck = False"
| "holds_lock AtLock = False"

definition lifecycle_inv :: "lifecycle \<Rightarrow> bool" where
  "lifecycle_inv s \<longleftrightarrow>
     live s \<subseteq> (case thread_ref s of None \<Rightarrow> {} | Some t \<Rightarrow> {t}) \<and>
     (\<forall>i. holds_lock (pc s i) \<longleftrightarrow> lock_holder s = Some i) \<and>
     (\<forall>i. pc s i = AtCreate \<or> pc s i = AtStart \<longrightarrow> live s = {})"

section \<open>Properties\<close>

subsection \<open>The pause deadline\<close>

text \<open>
  Claim C1, as amended. \<^verbatim>\<open>pause_for(d)\<close> with \<open>d \<le> 0\<close> changes nothing; with \<open>d > 0\<close> it
  sets the deadline to the maximum of the current deadline and \<open>now + d\<close>; no call lowers
  the deadline. After \<^verbatim>\<open>pause_for(d1)\<close> at time \<open>t1\<close> and \<^verbatim>\<open>pause_for(d2)\<close> at time
  \<open>t2\<close>, both positive, the deadline is the maximum of the old deadline, \<open>t1 + d1\<close> and
  \<open>t2 + d2\<close>. When both calls read the same time and no earlier pause is pending, the
  remaining pause is \<open>max d1 d2\<close>. When the second call comes later, but before the first
  deadline, the pause that remains at the second call is at most \<open>max d1 d2\<close>, and the
  whole pause counted from the first call is less than \<open>d1 + d2\<close>.
\<close>

theorem pause_for_deadline:
  "(d \<le> 0 \<longrightarrow> pause_for now d m = m) \<and>
   (0 < d \<longrightarrow> pause_for now d m =
        m\<lparr>pause_until_timestamp := max (pause_until_timestamp m) (now + d)\<rparr>) \<and>
   pause_until_timestamp m \<le> pause_until_timestamp (pause_for now d m) \<and>
   (0 < d1 \<and> 0 < d2 \<longrightarrow>
      pause_until_timestamp (pause_for t2 d2 (pause_for t1 d1 m)) =
        max (max (pause_until_timestamp m) (t1 + d1)) (t2 + d2)) \<and>
   (0 < d1 \<and> 0 < d2 \<and> pause_until_timestamp m \<le> now \<longrightarrow>
      remaining_pause_time now (pause_for now d2 (pause_for now d1 m)) = max d1 d2) \<and>
   (0 < d1 \<and> 0 < d2 \<and> pause_until_timestamp m \<le> t1 \<and> t1 \<le> t2 \<and> t2 < t1 + d1 \<longrightarrow>
      remaining_pause_time t2 (pause_for t2 d2 (pause_for t1 d1 m)) \<le> max d1 d2 \<and>
      pause_until_timestamp (pause_for t2 d2 (pause_for t1 d1 m)) - t1 < d1 + d2)"
proof -
  have one: "0 < d \<Longrightarrow> pause_for now d m =
        m\<lparr>pause_until_timestamp := max (pause_until_timestamp m) (now + d)\<rparr>" for now d m
    by (simp add: pause_for_def Let_def max_def)
  have noop: "d \<le> 0 \<Longrightarrow> pause_for now d m = m" for now d m
    by (simp add: pause_for_def)
  have mono: "pause_until_timestamp m \<le> pause_until_timestamp (pause_for now d m)"
    by (simp add: pause_for_def Let_def)
  show ?thesis
    using mono by (auto simp: one noop remaining_pause_time_def)
qed

text \<open>
  The theorem at a fresh manager: a call with duration 0 at time 10, a call with duration
  3 at time 10, and a second call with duration 2 at time 10 or at time 12.
\<close>

theorem pause_for_deadline_witness:
  "pause_for 10 0 (init 0 0 16000) = init 0 0 16000 \<and>
   pause_until_timestamp (pause_for 10 3 (init 0 0 16000)) = 13 \<and>
   pause_until_timestamp (pause_for 12 2 (pause_for 10 3 (init 0 0 16000))) = 14 \<and>
   remaining_pause_time 10 (pause_for 10 2 (pause_for 10 3 (init 0 0 16000))) = 3 \<and>
   remaining_pause_time 12 (pause_for 12 2 (pause_for 10 3 (init 0 0 16000))) \<le> 3 \<and>
   pause_until_timestamp (pause_for 12 2 (pause_for 10 3 (init 0 0 16000))) - 10 < 3 + 2"
  using pause_for_deadline [where d = 0 and now = 10 and m = "init 0 0 16000"
      and ?d1.0 = 3 and ?d2.0 = 2 and ?t1.0 = 10 and ?t2.0 = 12]
    pause_for_deadline [where d = 3 and now = 10 and m = "init 0 0 16000"
      and ?d1.0 = 3 and ?d2.0 = 2 and ?t1.0 = 10 and ?t2.0 = 12]
  by (simp add: init_def)

text \<open>
  The claim as stated fails when time passes between the two calls: \<^verbatim>\<open>pause_for(3)\<close> at
  time 0 and \<^verbatim>\<open>pause_for(2)\<close> at time 2 (before the first deadline, 3) give the deadline
  4. The pause lasts 4 seconds from the first call and 2 seconds from the second one;
  neither is \<open>max 3 2\<close>.
\<close>

theorem pause_for_max_counterexample:
  "pause_until_timestamp (pause_for 2 2 (pause_for 0 3 (init 0 0 16000))) = 4 \<and>
   pause_until_timestamp (pause_for 2 2 (pause_for 0 3 (init 0 0 16000))) - 0 \<noteq> max 3 2 \<and>
   remaining_pause_time 2 (pause_for 2 2 (pause_for 0 3 (init 0 0 16000))) \<noteq> max 3 2"
  by (simp add: pause_for_def init_def remaining_pause_time_def)

subsection \<open>The frame size\<close>

text \<open>
  The frame size is the rate divided by five, truncated towards zero: positive exactly
  for rates from 5 upwards.
\<close>

lemma chunk_size_product:
  "real_of_int bytes_per_sample * chunk_length_seconds * real_of_int r = real_of_int r / 5"
  by (simp add: bytes_per_sample_def chunk_length_seconds_def)

lemma floor_fifth: "\<lfloor>real_of_int x / 5\<rfloor> = x div 5"
  by (simp add: floor_divide_of_int_eq[where ?'a = real, of x 5, simplified])

lemma chunk_size_bytes_nonneg: "0 \<le> r \<Longrightarrow> chunk_size_bytes r = r div 5"
proof -
  assume r: "0 \<le> r"
  have fl: "\<lfloor>real_of_int r / 5\<rfloor> = r div 5"
    by (rule floor_fifth)
  have nn: "0 \<le> real_of_int r / 5" using r by simp
  show ?thesis unfolding chunk_size_bytes_def py_int_def chunk_size_product
    using fl nn by simp
qed

lemma chunk_size_bytes_neg: "r < 0 \<Longrightarrow> chunk_size_bytes r = - ((- r) div 5)"
proof -
  assume r: "r < 0"
  have ce: "\<lceil>real_of_int r / 5\<rceil> = - ((- r) div 5)"
    using floor_fifth [of "- r"] by (simp add: ceiling_def)
  have nn: "\<not> 0 \<le> real_of_int r / 5" using r by simp
  show ?thesis unfolding chunk_size_bytes_def py_int_def chunk_size_product
    using ce nn by simp
qed

lemma chunk_size_bytes_pos_iff: "0 < chunk_size_bytes r \<longleftrightarrow> 5 \<le> r"
proof (cases "0 \<le> r")
  case True
  then show ?thesis by (simp add: chunk_size_bytes_nonneg pos_imp_zdiv_pos_iff)
next
  case False
  then have "r < 0" by simp
  then show ?thesis by (simp add: chunk_size_bytes_neg) 
qed

subsection \<open>The loop of \<open>add_chunk\<close>\<close>

text \<open>The loop returns only for a positive frame size.\<close>

lemma add_chunk_loop_returns_pos:
  assumes ret: "add_chunk_loop now n sr m = Some r"
  shows "0 < n"
proof (rule add_chunk_loop.raw_induct [where P = "\<lambda>now n sr m r. 0 < n", OF _ ret])
  fix f now n sr m r
  assume IH: "\<And>now n sr m r. f now n sr m = Some r \<Longrightarrow> 0 < n"
    and eq: "(if int (length (inner_chunk_buffer m)) \<ge> n
      then f now n sr (add_chunk_body now n sr m)
      else Some m) = Some r"
  show "0 < n"
  proof (cases "int (length (inner_chunk_buffer m)) \<ge> n")
    case True
    with eq IH show ?thesis by simp
  next
    case False
    then show ?thesis by simp
  qed
qed

lemma add_chunk_nonpos_diverges:
  "chunk_size_bytes sample_rate \<le> 0 \<Longrightarrow> add_chunk now chunk sample_rate m = None"
  unfolding add_chunk_def Let_def
  using add_chunk_loop_returns_pos by fastforce

text \<open>
  For a positive frame size \<open>n\<close> the loop ends after \<open>length buffer div n\<close> iterations,
  with the frames \<open>take n (drop (i * n) buffer)\<close> added to the queue in this order.
\<close>

lemma add_chunk_inner_eq:
  "add_chunk_inner now c sr m =
     m\<lparr>audio_queue := audio_queue m @ [(c, sr)], last_chunk_time := now,
       audio_thread := (if is_alive (audio_thread m) then audio_thread m else Running),
       stop_audio_thread := (if is_alive (audio_thread m) then stop_audio_thread m else False)\<rparr>"
  by (cases "audio_thread m") (simp_all add: add_chunk_inner_def start_audio_thread_def Let_def)

lemma frames_shift:
  "map (\<lambda>i. (take n (drop (i * n) b), sr)) [0..<Suc k] =
     (take n b, sr) # map (\<lambda>i. (take n (drop (i * n) (drop n b)), sr)) [0..<k]"
proof -
  have "map (\<lambda>i. (take n (drop (i * n) b), sr)) [0..<Suc k] =
      (take n b, sr) # map (\<lambda>i. (take n (drop (Suc i * n) b), sr)) [0..<k]"
    by (simp only: upt_conv_Cons[of 0 "Suc k"] map_Suc_upt[symmetric] list.map map_map o_def) simp
  then show ?thesis by (simp add: add.commute)
qed

lemma add_chunk_loop_frames:
  assumes n: "0 < n"
  shows "length (inner_chunk_buffer m) div n = k \<Longrightarrow>
    add_chunk_loop now (int n) sr m =
      Some (m\<lparr>audio_queue := audio_queue m @
                 map (\<lambda>i. (take n (drop (i * n) (inner_chunk_buffer m)), sr)) [0..<k],
              inner_chunk_buffer := drop (k * n) (inner_chunk_buffer m),
              last_chunk_time := (if k = 0 then last_chunk_time m else now),
              audio_thread := (if k = 0 \<or> is_alive (audio_thread m) then audio_thread m else Running),
              stop_audio_thread :=
                (if k = 0 \<or> is_alive (audio_thread m) then stop_audio_thread m else False)\<rparr>)"
proof (induction k arbitrary: m)
  case 0
  then have "length (inner_chunk_buffer m) < n" using n by (simp add: div_eq_0_iff)
  then show ?case by (subst add_chunk_loop.simps) simp
next
  case (Suc k)
  let ?b = "inner_chunk_buffer m"
  from Suc.prems n have ge: "n \<le> length ?b"
    by (metis div_less not_less nat.simps(3))
  let ?m1 = "add_chunk_body now (int n) sr m"
  have b1: "inner_chunk_buffer ?m1 = drop n ?b" by (simp add: add_chunk_body_def slice_from_def)
  have "length (drop n ?b) div n = k" using Suc.prems ge n
    by (simp add: le_div_geq)
  with b1 have k1: "length (inner_chunk_buffer ?m1) div n = k" by simp
  have unfold: "add_chunk_loop now (int n) sr m = add_chunk_loop now (int n) sr ?m1"
    using ge by (subst add_chunk_loop.simps) simp
  show ?case
    unfolding unfold Suc.IH [OF k1] frames_shift
    by (simp add: add_chunk_body_def add_chunk_inner_eq slice_to_def slice_from_def add.commute)
qed

lemma concat_frames:
  "concat (map (\<lambda>i. take n (drop (i * n) b)) [0..<k]) = take (k * n) b"
proof (induction k)
  case 0
  show ?case by simp
next
  case (Suc k)
  have "take (Suc k * n) b = take (k * n) b @ take n (drop (k * n) b)"
    using take_add [of "k * n" n b] by (simp add: add.commute)
  with Suc show ?case by simp
qed

lemma frame_length:
  "i < length b div n \<Longrightarrow> length (take n (drop (i * n) b)) = n"
proof -
  assume i: "i < length b div n"
  then have "Suc i \<le> length b div n" by simp
  then have "Suc i * n \<le> length b div n * n" by (rule mult_le_mono1)
  also have "\<dots> \<le> length b" by simp
  finally show ?thesis by simp
qed

text \<open>The whole effect of a call with a positive frame size.\<close>

lemma add_chunk_closed_form:
  fixes now :: real and m :: manager and chunk :: "byte list" and sample_rate :: int
  assumes pos: "0 < chunk_size_bytes sample_rate"
  defines "n \<equiv> nat (chunk_size_bytes sample_rate)"
  defines "data \<equiv> (if now - last_chunk_time m > 15 / 100 then [] else inner_chunk_buffer m) @ chunk"
  defines "k \<equiv> length data div n"
  shows "add_chunk now chunk sample_rate m =
      Some (m\<lparr>audio_queue := audio_queue m @
                 map (\<lambda>i. (take n (drop (i * n) data), sample_rate)) [0..<k],
              inner_chunk_buffer := drop (k * n) data,
              last_chunk_time := now,
              audio_thread := (if k = 0 \<or> is_alive (audio_thread m) then audio_thread m else Running),
              stop_audio_thread :=
                (if k = 0 \<or> is_alive (audio_thread m) then stop_audio_thread m else False)\<rparr>) \<and>
    (\<forall>i<k. length (take n (drop (i * n) data)) = n) \<and>
    concat (map (\<lambda>i. take n (drop (i * n) data)) [0..<k]) @ drop (k * n) data = data \<and>
    length (drop (k * n) data) < n"
proof -
  have n: "0 < n" and sz: "chunk_size_bytes sample_rate = int n"
    using pos by (simp_all add: n_def)
  have rest: "length (drop (k * n) data) < n"
  proof -
    have "length data - k * n = length data mod n"
      unfolding k_def by (rule minus_div_mult_eq_mod)
    then show ?thesis using n by simp
  qed
  have "add_chunk now chunk sample_rate m = Some (m\<lparr>audio_queue := audio_queue m @
                 map (\<lambda>i. (take n (drop (i * n) data), sample_rate)) [0..<k],
              inner_chunk_buffer := drop (k * n) data,
              last_chunk_time := now,
              audio_thread := (if k = 0 \<or> is_alive (audio_thread m) then audio_thread m else Running),
              stop_audio_thread :=
                (if k = 0 \<or> is_alive (audio_thread m) then stop_audio_thread m else False)\<rparr>)"
    unfolding add_chunk_def Let_def sz
    by (subst add_chunk_loop_frames [OF n, where k = k]) (auto simp: k_def data_def)
  moreover have "\<forall>i<k. length (take n (drop (i * n) data)) = n"
    unfolding k_def using frame_length by blast
  moreover have "concat (map (\<lambda>i. take n (drop (i * n) data)) [0..<k]) @ drop (k * n) data = data"
    by (simp add: concat_frames)
  ultimately show ?thesis using rest by blast
qed

text \<open>
  Claim C5. For a call of \<^verbatim>\<open>add_chunk\<close> with a positive frame size \<open>n\<close>: \<open>n\<close> is
  two bytes times a tenth of a second times the rate, cut to a whole number (and the
  product itself when the rate is a multiple of 5); the bytes
  buffered before the call are dropped when more than 150 ms have passed since
  \<^verbatim>\<open>last_chunk_time\<close>, and the chunk is appended (\<open>data\<close>); the call returns; the
  \<open>k = length data div n\<close> frames \<open>take n (drop (i * n) data)\<close>, each of exactly \<open>n\<close>
  bytes, are added to the queue in order with the rate of the call; the rest of \<open>data\<close>,
  shorter than \<open>n\<close>, stays in the buffer; frames and rest together are \<open>data\<close>; and
  \<^verbatim>\<open>last_chunk_time\<close> is the time of the call.
\<close>

theorem add_chunk_frames:
  fixes now :: real and m :: manager and chunk :: "byte list" and sample_rate :: int
  assumes pos: "0 < chunk_size_bytes sample_rate"
  defines "n \<equiv> nat (chunk_size_bytes sample_rate)"
  defines "data \<equiv> (if now - last_chunk_time m > 15 / 100 then [] else inner_chunk_buffer m) @ chunk"
  defines "k \<equiv> length data div n"
  shows "int n = \<lfloor>2 * (1 / 10) * real_of_int sample_rate\<rfloor> \<and>
    (sample_rate mod 5 = 0 \<longrightarrow> real n = 2 * (1 / 10) * real_of_int sample_rate) \<and>
    add_chunk now chunk sample_rate m =
      Some (m\<lparr>audio_queue := audio_queue m @
                 map (\<lambda>i. (take n (drop (i * n) data), sample_rate)) [0..<k],
              inner_chunk_buffer := drop (k * n) data,
              last_chunk_time := now,
              audio_thread := (if k = 0 \<or> is_alive (audio_thread m) then audio_thread m else Running),
              stop_audio_thread :=
                (if k = 0 \<or> is_alive (audio_thread m) then stop_audio_thread m else False)\<rparr>) \<and>
    (\<forall>i<k. length (take n (drop (i * n) data)) = n) \<and>
    concat (map (\<lambda>i. take n (drop (i * n) data)) [0..<k]) @ drop (k * n) data = data \<and>
    length (drop (k * n) data) < n"
proof -
  from pos have r5: "5 \<le> sample_rate" by (simp add: chunk_size_bytes_pos_iff)
  then have size: "chunk_size_bytes sample_rate = sample_rate div 5"
    by (simp add: chunk_size_bytes_nonneg)
  have fifth: "2 * (1 / 10) * real_of_int sample_rate = real_of_int sample_rate / 5" by simp
  from pos have "int n = chunk_size_bytes sample_rate" by (simp add: n_def)
  with size have n5: "int n = sample_rate div 5" by simp
  have a: "int n = \<lfloor>2 * (1 / 10) * real_of_int sample_rate\<rfloor>"
    unfolding fifth floor_fifth by (rule n5)
  have b: "sample_rate mod 5 = 0 \<longrightarrow> real n = 2 * (1 / 10) * real_of_int sample_rate"
  proof
    assume "sample_rate mod 5 = 0"
    then have "sample_rate = 5 * (sample_rate div 5)" by presburger
    with n5 have "sample_rate = 5 * int n" by simp
    then have "real_of_int sample_rate = 5 * real n" by simp
    then show "real n = 2 * (1 / 10) * real_of_int sample_rate" by simp
  qed
  from add_chunk_closed_form [OF pos, where now = now and m = m and chunk = chunk]
  have c: "add_chunk now chunk sample_rate m =
      Some (m\<lparr>audio_queue := audio_queue m @
                 map (\<lambda>i. (take n (drop (i * n) data), sample_rate)) [0..<k],
              inner_chunk_buffer := drop (k * n) data,
              last_chunk_time := now,
              audio_thread := (if k = 0 \<or> is_alive (audio_thread m) then audio_thread m else Running),
              stop_audio_thread :=
                (if k = 0 \<or> is_alive (audio_thread m) then stop_audio_thread m else False)\<rparr>) \<and>
    (\<forall>i<k. length (take n (drop (i * n) data)) = n) \<and>
    concat (map (\<lambda>i. take n (drop (i * n) data)) [0..<k]) @ drop (k * n) data = data \<and>
    length (drop (k * n) data) < n"
    unfolding n_def data_def k_def .
  from a b c show ?thesis by blast
qed

text \<open>
  The theorem at rate 10 (frames of two bytes), with one byte left in the buffer by an
  earlier call: 100 ms after that call the byte is kept, one second after it the byte
  is dropped. And the theorem at rate 16000, where a frame has 3200 bytes, and at rate
  11, where the product 2.2 is cut to a frame of 2 bytes.
\<close>

theorem add_chunk_frames_witness:
  "0 < chunk_size_bytes 10 \<and> 0 < chunk_size_bytes 16000 \<and> 0 < chunk_size_bytes 11 \<and>
   chunk_size_bytes 10 = 2 \<and> chunk_size_bytes 16000 = 3200 \<and> chunk_size_bytes 11 = 2 \<and>
   add_chunk (1 / 10) [3, 4, 5, 6] 10 ((init 0 0 10)\<lparr>inner_chunk_buffer := [2]\<rparr>) =
     Some ((init 0 0 10)\<lparr>audio_queue := [([2, 3], 10), ([4, 5], 10)],
             inner_chunk_buffer := [6], last_chunk_time := 1 / 10, audio_thread := Running\<rparr>) \<and>
   add_chunk 1 [3, 4, 5, 6] 10 ((init 0 0 10)\<lparr>inner_chunk_buffer := [2]\<rparr>) =
     Some ((init 0 0 10)\<lparr>audio_queue := [([3, 4], 10), ([5, 6], 10)],
             inner_chunk_buffer := [], last_chunk_time := 1, audio_thread := Running\<rparr>) \<and>
   add_chunk 1 (replicate 3200 7 @ [8]) 16000 (init 1 0 16000) =
     Some ((init 1 0 16000)\<lparr>audio_queue := [(replicate 3200 7, 16000)],
             inner_chunk_buffer := [8], audio_thread := Running\<rparr>) \<and>
   add_chunk 1 [1, 2, 3] 11 (init 1 0 16000) =
     Some ((init 1 0 16000)\<lparr>audio_queue := [([1, 2], 11)],
             inner_chunk_buffer := [3], audio_thread := Running\<rparr>)"
proof -
  have p10: "0 < chunk_size_bytes 10" and p16: "0 < chunk_size_bytes 16000"
    and p11: "0 < chunk_size_bytes 11"
    by (simp_all add: chunk_size_bytes_pos_iff)
  note t10a = add_chunk_frames [OF p10, where now = "1 / 10" and chunk = "[3, 4, 5, 6]"
      and m = "(init 0 0 10)\<lparr>inner_chunk_buffer := [2]\<rparr>"]
  note t10b = add_chunk_frames [OF p10, where now = 1 and chunk = "[3, 4, 5, 6]"
      and m = "(init 0 0 10)\<lparr>inner_chunk_buffer := [2]\<rparr>"]
  note t16 = add_chunk_frames [OF p16, where now = 1 and chunk = "replicate 3200 7 @ [8]"
      and m = "init 1 0 16000"]
  note t11 = add_chunk_frames [OF p11, where now = 1 and chunk = "[1, 2, 3]"
      and m = "init 1 0 16000"]
  from t10a have "int (nat (chunk_size_bytes 10)) = \<lfloor>2 * (1 / 10) * real_of_int 10\<rfloor>"
    by (rule conjunct1)
  with p10 have s10: "chunk_size_bytes 10 = 2" by simp
  from t16 have "int (nat (chunk_size_bytes 16000)) = \<lfloor>2 * (1 / 10) * real_of_int 16000\<rfloor>"
    by (rule conjunct1)
  with p16 have s16: "chunk_size_bytes 16000 = 3200" by simp
  from t11 have "int (nat (chunk_size_bytes 11)) = \<lfloor>2 * (1 / 10) * real_of_int 11\<rfloor>"
    by (rule conjunct1)
  with p11 have s11: "chunk_size_bytes 11 = 2" by simp
  from t10a have a: "add_chunk (1 / 10) [3, 4, 5, 6] 10 ((init 0 0 10)\<lparr>inner_chunk_buffer := [2]\<rparr>) =
     Some ((init 0 0 10)\<lparr>audio_queue := [([2, 3], 10), ([4, 5], 10)],
             inner_chunk_buffer := [6], last_chunk_time := 1 / 10, audio_thread := Running\<rparr>)"
    unfolding s10 by (simp add: init_def upt_conv_Cons)
  from t10b have b: "add_chunk 1 [3, 4, 5, 6] 10 ((init 0 0 10)\<lparr>inner_chunk_buffer := [2]\<rparr>) =
     Some ((init 0 0 10)\<lparr>audio_queue := [([3, 4], 10), ([5, 6], 10)],
             inner_chunk_buffer := [], last_chunk_time := 1, audio_thread := Running\<rparr>)"
    unfolding s10 by (simp add: init_def upt_conv_Cons)
  from t16 have c: "add_chunk 1 (replicate 3200 7 @ [8]) 16000 (init 1 0 16000) =
     Some ((init 1 0 16000)\<lparr>audio_queue := [(replicate 3200 7, 16000)],
             inner_chunk_buffer := [8], audio_thread := Running\<rparr>)"
    unfolding s16 by (simp add: init_def upt_conv_Cons)
  from t11 have d: "add_chunk 1 [1, 2, 3] 11 (init 1 0 16000) =
     Some ((init 1 0 16000)\<lparr>audio_queue := [([1, 2], 11)],
             inner_chunk_buffer := [3], audio_thread := Running\<rparr>)"
    unfolding s11 by (simp add: init_def upt_conv_Cons)
  from p10 p16 p11 s10 s16 s11 a b c d show ?thesis by (intro conjI)
qed

text \<open>
  Claim C10. The buffer is not kept per sample rate. When a call of \<^verbatim>\<open>add_chunk\<close> with
  rate \<open>r1\<close> is followed within 150 ms by a call with rate \<open>r2\<close> (both with a positive
  frame size), the bytes left in the buffer by the first call are put in front of the
  second chunk, the whole is cut with the frame size of \<open>r2\<close>, and the frames are queued
  with rate \<open>r2\<close>.
\<close>

theorem add_chunk_mixes_rates:
  fixes t1 t2 :: real and m :: manager and c1 c2 :: "byte list" and r1 r2 :: int
  assumes pos1: "0 < chunk_size_bytes r1" and pos2: "0 < chunk_size_bytes r2"
    and soon: "t2 - t1 \<le> 15 / 100"
  defines "n2 \<equiv> nat (chunk_size_bytes r2)"
  shows "\<exists>m1 m2. add_chunk t1 c1 r1 m = Some m1 \<and> add_chunk t2 c2 r2 m1 = Some m2 \<and>
     length (inner_chunk_buffer m1) < nat (chunk_size_bytes r1) \<and>
     audio_queue m2 = audio_queue m1 @
       map (\<lambda>i. (take n2 (drop (i * n2) (inner_chunk_buffer m1 @ c2)), r2))
         [0..<length (inner_chunk_buffer m1 @ c2) div n2] \<and>
     inner_chunk_buffer m2 =
       drop (length (inner_chunk_buffer m1 @ c2) div n2 * n2) (inner_chunk_buffer m1 @ c2)"
proof -
  from add_chunk_closed_form [OF pos1, where now = t1 and m = m and chunk = c1]
  obtain m1 where m1: "add_chunk t1 c1 r1 m = Some m1"
    and t: "last_chunk_time m1 = t1"
    and b: "length (inner_chunk_buffer m1) < nat (chunk_size_bytes r1)"
    by simp
  from soon t have keep: "\<not> t2 - last_chunk_time m1 > 15 / 100" by simp
  from add_chunk_closed_form [OF pos2, where now = t2 and m = m1 and chunk = c2] keep
  obtain m2 where m2: "add_chunk t2 c2 r2 m1 = Some m2"
    and q: "audio_queue m2 = audio_queue m1 @
       map (\<lambda>i. (take n2 (drop (i * n2) (inner_chunk_buffer m1 @ c2)), r2))
         [0..<length (inner_chunk_buffer m1 @ c2) div n2]"
    and r: "inner_chunk_buffer m2 =
       drop (length (inner_chunk_buffer m1 @ c2) div n2 * n2) (inner_chunk_buffer m1 @ c2)"
    by (simp add: n2_def)
  from m1 m2 b q r show ?thesis by blast
qed

text \<open>
  The theorem at rates 10 and 20: the byte 3 left by the call at rate 10 is the first
  byte of the frame queued with rate 20.
\<close>

theorem add_chunk_mixes_rates_witness:
  "0 < chunk_size_bytes 10 \<and> 0 < chunk_size_bytes 20 \<and>
   (\<exists>m1 m2. add_chunk (1 / 10) [1, 2, 3] 10 (init 0 0 40) = Some m1 \<and>
      add_chunk (2 / 10) [4, 5, 6, 7] 20 m1 = Some m2 \<and>
      audio_queue m1 = [([1, 2], 10)] \<and> inner_chunk_buffer m1 = [3] \<and>
      audio_queue m2 = [([1, 2], 10), ([3, 4, 5, 6], 20)] \<and> inner_chunk_buffer m2 = [7])"
proof -
  have p1: "0 < chunk_size_bytes 10" and p2: "0 < chunk_size_bytes 20"
    by (simp_all add: chunk_size_bytes_nonneg)
  have soon: "(2 / 10 :: real) - 1 / 10 \<le> 15 / 100" by simp
  have a1: "add_chunk (1 / 10) [1, 2, 3] 10 (init 0 0 40) =
     Some ((init 0 0 40)\<lparr>audio_queue := [([1, 2], 10)],
             inner_chunk_buffer := [3], last_chunk_time := 1 / 10, audio_thread := Running\<rparr>)"
    using add_chunk_closed_form [OF p1, where now = "1 / 10" and m = "init 0 0 40" and chunk = "[1, 2, 3]"]
    by (simp add: chunk_size_bytes_nonneg init_def upt_conv_Cons)
  from add_chunk_mixes_rates [OF p1 p2 soon, where ?c1.0 = "[1, 2, 3]" and m = "init 0 0 40"
      and ?c2.0 = "[4, 5, 6, 7]"]
  obtain m1 m2 where m1: "add_chunk (1 / 10) [1, 2, 3] 10 (init 0 0 40) = Some m1"
    and m2: "add_chunk (2 / 10) [4, 5, 6, 7] 20 m1 = Some m2"
    and q: "audio_queue m2 = audio_queue m1 @
       map (\<lambda>i. (take (nat (chunk_size_bytes 20))
           (drop (i * nat (chunk_size_bytes 20)) (inner_chunk_buffer m1 @ [4, 5, 6, 7])), 20))
         [0..<length (inner_chunk_buffer m1 @ [4, 5, 6, 7]) div nat (chunk_size_bytes 20)]"
    and r: "inner_chunk_buffer m2 =
       drop (length (inner_chunk_buffer m1 @ [4, 5, 6, 7]) div nat (chunk_size_bytes 20) *
           nat (chunk_size_bytes 20)) (inner_chunk_buffer m1 @ [4, 5, 6, 7])"
    by blast
  from m1 a1 have q1: "audio_queue m1 = [([1, 2], 10)]" and b1: "inner_chunk_buffer m1 = [3]"
    by auto
  have q2: "audio_queue m2 = [([1, 2], 10), ([3, 4, 5, 6], 20)]"
    unfolding q q1 b1 by (simp add: chunk_size_bytes_nonneg upt_conv_Cons)
  have b2: "inner_chunk_buffer m2 = [7]"
    unfolding r b1 by (simp add: chunk_size_bytes_nonneg)
  from p1 p2 m1 m2 q1 b1 q2 b2 show ?thesis by blast
qed

subsection \<open>A frame size that is not positive\<close>

text \<open>With frame size 0 every iteration of the loop queues an empty frame and keeps the buffer.\<close>

lemma add_chunk_body_zero_iter:
  "(add_chunk_body now 0 sr ^^ k) m =
     (if k = 0 then m else
      m\<lparr>audio_queue := audio_queue m @ replicate k ([], sr), last_chunk_time := now,
        audio_thread := (if is_alive (audio_thread m) then audio_thread m else Running),
        stop_audio_thread := (if is_alive (audio_thread m) then stop_audio_thread m else False)\<rparr>)"
proof (induction k)
  case 0
  show ?case by simp
next
  case (Suc k)
  then show ?case
    by (cases "audio_thread m")
      (auto simp: add_chunk_body_def add_chunk_inner_eq slice_to_def slice_from_def
        replicate_append_same)
qed

text \<open>
  Claim C4 asks that a call of \<^verbatim>\<open>add_chunk\<close> whose frame size is zero or negative
  returns without queueing anything. The code has no test of the frame size. With
  sample rate 0 the frame size is 0, the test of the loop holds before every iteration,
  every iteration queues an empty frame, and the call never returns.
\<close>

theorem add_chunk_zero_rate_never_returns:
  "chunk_size_bytes 0 = 0 \<and>
   add_chunk 1 [] 0 (init 0 0 16000) = None \<and>
   (\<forall>k. audio_queue ((add_chunk_body 1 0 0 ^^ k) (init 0 0 16000)) = replicate k ([], 0) \<and>
        int (length (inner_chunk_buffer ((add_chunk_body 1 0 0 ^^ k) (init 0 0 16000)))) \<ge> 0)"
  by (simp add: add_chunk_nonpos_diverges chunk_size_bytes_nonneg add_chunk_body_zero_iter init_def)

subsection \<open>Conversion\<close>

text \<open>Bytes and samples: a buffer of even length is a list of samples, an odd one is refused.\<close>

lemma frombuffer_tobytes: "frombuffer_int16 (tobytes samples) = Inr samples"
  by (induction samples) (auto simp: tobytes_def)

lemma frombuffer_odd: "odd (length chunk) \<Longrightarrow> frombuffer_int16 chunk = Inl ValueError"
  by (induction chunk rule: frombuffer_int16.induct) (auto split: sum.splits)

lemma frombuffer_even: "even (length chunk) \<Longrightarrow> \<exists>samples. frombuffer_int16 chunk = Inr samples \<and> tobytes samples = chunk"
  by (induction chunk rule: frombuffer_int16.induct) (auto split: sum.splits simp: tobytes_def)

lemma length_tobytes: "length (tobytes samples) = 2 * length samples"
  by (induction samples) (auto simp: tobytes_def)

lemma length_np_repeat: "length (np_repeat samples k) = nat k * length samples"
  by (induction samples) (auto simp: np_repeat_def)

lemma np_repeat_nth:
  "i < nat k * length samples \<Longrightarrow> np_repeat samples k ! i = samples ! (i div nat k)"
proof (induction samples arbitrary: i)
  case Nil
  then show ?case by simp
next
  case (Cons s samples)
  have unfold: "np_repeat (s # samples) k = replicate (nat k) s @ np_repeat samples k"
    by (simp add: np_repeat_def)
  show ?case
  proof (cases "i < nat k")
    case True
    then show ?thesis by (simp add: unfold nth_append)
  next
    case False
    then have ge: "nat k \<le> i" by simp
    with Cons.prems have "i - nat k < nat k * length samples" by simp
    then have "np_repeat samples k ! (i - nat k) = samples ! ((i - nat k) div nat k)"
      by (rule Cons.IH)
    moreover from Cons.prems have "0 < nat k" by (cases "nat k") simp_all
    with ge have "i div nat k = Suc ((i - nat k) div nat k)"
      by (simp add: le_div_geq)
    ultimately show ?thesis using False by (simp add: unfold nth_append)
  qed
qed

text \<open>
  Claim C2, as amended. For every frame and every pair of rates with a source rate other
  than 0: the frame is returned unchanged when the source rate is the output rate; when
  the output rate is a multiple of the source rate with ratio above 1 and the frame has
  an even number of bytes, the result is the frame with each 16-bit sample repeated
  \<open>ratio\<close> times in order (sample \<open>i\<close> of the result is sample \<open>i div ratio\<close> of the frame,
  and the result is \<open>ratio\<close> times as long); in every other case with a source rate other
  than 0 the result is that of \<^verbatim>\<open>_upsample\<close>, which for different rates is
  \<^verbatim>\<open>audioop.ratecv\<close> with width 2 and one channel.
\<close>

theorem upsample_chunk_cases:
  "(sample_rate = output_sample_rate m \<longrightarrow>
      upsample_chunk_to_output_sample_rate ratecv m chunk sample_rate = Inr chunk) \<and>
   (sample_rate \<noteq> 0 \<and> output_sample_rate m mod sample_rate = 0 \<and>
    1 < output_sample_rate m div sample_rate \<and> even (length chunk) \<longrightarrow>
      (\<exists>samples. chunk = tobytes samples \<and>
         upsample_chunk_to_output_sample_rate ratecv m chunk sample_rate =
           Inr (tobytes (np_repeat samples (output_sample_rate m div sample_rate))) \<and>
         length (tobytes (np_repeat samples (output_sample_rate m div sample_rate))) =
           nat (output_sample_rate m div sample_rate) * length chunk \<and>
         length (np_repeat samples (output_sample_rate m div sample_rate)) =
           nat (output_sample_rate m div sample_rate) * length samples \<and>
         (\<forall>i < nat (output_sample_rate m div sample_rate) * length samples.
            np_repeat samples (output_sample_rate m div sample_rate) ! i =
              samples ! (i div nat (output_sample_rate m div sample_rate))))) \<and>
   (sample_rate \<noteq> 0 \<and> sample_rate \<noteq> output_sample_rate m \<and>
    \<not> (output_sample_rate m mod sample_rate = 0 \<and> 1 < output_sample_rate m div sample_rate) \<longrightarrow>
      upsample_chunk_to_output_sample_rate ratecv m chunk sample_rate =
        upsample ratecv chunk sample_rate (output_sample_rate m) \<and>
      upsample ratecv chunk sample_rate (output_sample_rate m) =
        ratecv chunk 2 1 sample_rate (output_sample_rate m))"
proof -
  let ?ratio = "output_sample_rate m div sample_rate"
  have same: "sample_rate = output_sample_rate m \<Longrightarrow>
      upsample_chunk_to_output_sample_rate ratecv m chunk sample_rate = Inr chunk"
    by (simp add: upsample_chunk_to_output_sample_rate_def)
  have rep: "\<exists>samples. chunk = tobytes samples \<and>
         upsample_chunk_to_output_sample_rate ratecv m chunk sample_rate =
           Inr (tobytes (np_repeat samples ?ratio)) \<and>
         length (tobytes (np_repeat samples ?ratio)) = nat ?ratio * length chunk \<and>
         length (np_repeat samples ?ratio) = nat ?ratio * length samples \<and>
         (\<forall>i < nat ?ratio * length samples.
            np_repeat samples ?ratio ! i = samples ! (i div nat ?ratio))"
    if "sample_rate \<noteq> 0" "output_sample_rate m mod sample_rate = 0" "1 < ?ratio"
      "even (length chunk)"
  proof -
    from that have ne: "sample_rate \<noteq> output_sample_rate m" by auto
    from frombuffer_even [OF that(4)] obtain samples
      where fb: "frombuffer_int16 chunk = Inr samples" and tb: "tobytes samples = chunk"
      by blast
    from that ne fb
    have "upsample_chunk_to_output_sample_rate ratecv m chunk sample_rate =
        Inr (tobytes (np_repeat samples ?ratio))"
      by (simp add: upsample_chunk_to_output_sample_rate_def Let_def)
    moreover have "length (tobytes (np_repeat samples ?ratio)) = nat ?ratio * length chunk"
      unfolding tb [symmetric] by (simp add: length_tobytes length_np_repeat)
    ultimately show ?thesis
      using tb by (auto simp: length_np_repeat np_repeat_nth)
  qed
  have fb: "upsample_chunk_to_output_sample_rate ratecv m chunk sample_rate =
        upsample ratecv chunk sample_rate (output_sample_rate m) \<and>
      upsample ratecv chunk sample_rate (output_sample_rate m) =
        ratecv chunk 2 1 sample_rate (output_sample_rate m)"
    if "sample_rate \<noteq> 0" "sample_rate \<noteq> output_sample_rate m"
     "\<not> (output_sample_rate m mod sample_rate = 0 \<and> 1 < ?ratio)"
    using that
    by (auto simp: upsample_chunk_to_output_sample_rate_def Let_def upsample_def
        SAMPLE_WIDTH_def CHANNELS_def)
  have c1: "sample_rate = output_sample_rate m \<longrightarrow>
      upsample_chunk_to_output_sample_rate ratecv m chunk sample_rate = Inr chunk"
    using same by simp
  have c2: "sample_rate \<noteq> 0 \<and> output_sample_rate m mod sample_rate = 0 \<and>
    1 < ?ratio \<and> even (length chunk) \<longrightarrow>
      (\<exists>samples. chunk = tobytes samples \<and>
         upsample_chunk_to_output_sample_rate ratecv m chunk sample_rate =
           Inr (tobytes (np_repeat samples ?ratio)) \<and>
         length (tobytes (np_repeat samples ?ratio)) = nat ?ratio * length chunk \<and>
         length (np_repeat samples ?ratio) = nat ?ratio * length samples \<and>
         (\<forall>i < nat ?ratio * length samples.
            np_repeat samples ?ratio ! i = samples ! (i div nat ?ratio)))"
    using rep by (intro impI) (elim conjE)
  have c3: "sample_rate \<noteq> 0 \<and> sample_rate \<noteq> output_sample_rate m \<and>
    \<not> (output_sample_rate m mod sample_rate = 0 \<and> 1 < ?ratio) \<longrightarrow>
      upsample_chunk_to_output_sample_rate ratecv m chunk sample_rate =
        upsample ratecv chunk sample_rate (output_sample_rate m) \<and>
      upsample ratecv chunk sample_rate (output_sample_rate m) =
        ratecv chunk 2 1 sample_rate (output_sample_rate m)"
    using fb by (intro impI) (elim conjE)
  from c1 c2 c3 show ?thesis by (intro conjI)
qed

text \<open>
  The theorem at output rate 16000: a frame of two samples at 16000, at 8000 (each sample
  twice) and at 48000 (left to \<^verbatim>\<open>audioop.ratecv\<close>, here the stand-in).
\<close>

theorem upsample_chunk_cases_witness:
  "upsample_chunk_to_output_sample_rate ratecv_unchanged (init 0 0 16000) [1, 2, 3, 4] 16000 =
     Inr [1, 2, 3, 4] \<and>
   upsample_chunk_to_output_sample_rate ratecv_unchanged (init 0 0 16000) [1, 2, 3, 4] 8000 =
     Inr [1, 2, 1, 2, 3, 4, 3, 4] \<and>
   upsample_chunk_to_output_sample_rate ratecv_unchanged (init 0 0 16000) [1, 2, 3, 4] 48000 =
     Inr [1, 2, 3, 4]"
proof -
  let ?rv = ratecv_unchanged
  have out: "output_sample_rate (init 0 0 16000) = 16000" by (simp add: init_def)
  from upsample_chunk_cases [where sample_rate = 16000 and m = "init 0 0 16000"
      and chunk = "[1, 2, 3, 4]" and ratecv = ?rv]
  have a: "upsample_chunk_to_output_sample_rate ?rv (init 0 0 16000) [1, 2, 3, 4] 16000 =
      Inr [1, 2, 3, 4]"
    by (simp add: out)
  from upsample_chunk_cases [where sample_rate = 8000 and m = "init 0 0 16000"
      and chunk = "[1, 2, 3, 4]" and ratecv = ?rv]
  obtain samples where s: "[1, 2, 3, 4] = tobytes samples"
    and r: "upsample_chunk_to_output_sample_rate ?rv (init 0 0 16000) [1, 2, 3, 4] 8000 =
      Inr (tobytes (np_repeat samples 2))"
    by (auto simp: out)
  from s have "frombuffer_int16 [1, 2, 3, 4] = Inr samples"
    by (simp only: frombuffer_tobytes)
  then have "samples = [(1, 2), (3, 4)]" by simp
  with r have b: "upsample_chunk_to_output_sample_rate ?rv (init 0 0 16000) [1, 2, 3, 4] 8000 =
      Inr [1, 2, 1, 2, 3, 4, 3, 4]"
    by (simp add: tobytes_def np_repeat_def eval_nat_numeral)
  from upsample_chunk_cases [where sample_rate = 48000 and m = "init 0 0 16000"
      and chunk = "[1, 2, 3, 4]" and ratecv = ?rv]
  have c: "upsample_chunk_to_output_sample_rate ?rv (init 0 0 16000) [1, 2, 3, 4] 48000 =
      Inr [1, 2, 3, 4]"
    by (simp add: out ratecv_unchanged_def)
  from a b c show ?thesis by blast
qed

text \<open>
  The claim as stated fails for a frame of three bytes at 8000 with output rate 16000
  (\<^verbatim>\<open>np.frombuffer\<close> raises) and for the source rate 0 (the division raises): in both
  cases nothing is returned and \<^verbatim>\<open>_upsample\<close> is not called.
\<close>

theorem upsample_chunk_counterexample:
  "upsample_chunk_to_output_sample_rate ratecv_unchanged (init 0 0 16000) [1, 2, 3] 8000 =
     Inl ValueError \<and>
   upsample_chunk_to_output_sample_rate ratecv_unchanged (init 0 0 16000) [1, 2] 0 =
     Inl ZeroDivisionError"
  by (simp add: upsample_chunk_to_output_sample_rate_def init_def)

subsection \<open>The worker\<close>

text \<open>A thread that has ended takes no step; a live thread that sees the stop flag ends.\<close>

lemma worker_get_eq:
  "worker_get ratecv now m =
     (if audio_thread m \<noteq> Running then m
      else if stop_audio_thread m then m\<lparr>audio_thread := Finished\<rparr>
      else
        (case audio_queue m of
           [] \<Rightarrow>
             if last_chunk_time m \<noteq> 0 \<and> now - last_chunk_time m > 10
             then m\<lparr>audio_thread := Finished\<rparr>
             else m
         | (chunk, sample_rate) # rest \<Rightarrow>
             (case upsample_chunk_to_output_sample_rate ratecv m chunk sample_rate of
                Inl e \<Rightarrow> m\<lparr>audio_queue := rest, audio_thread := Raised e\<rparr>
              | Inr chunk_upsampled \<Rightarrow>
                  m\<lparr>audio_queue := rest, audio_thread := Holding chunk_upsampled\<rparr>)))"
  by (simp add: worker_get_def worker_take_def)

text \<open>The two steps of \<open>worker_play\<close> in one.\<close>

lemma worker_play_eq:
  "worker_play cb now m =
     (case audio_thread m of
        Holding chunk_upsampled \<Rightarrow>
          if stop_audio_thread m then m\<lparr>audio_thread := Finished\<rparr>
          else if remaining_pause_time now m > 0 then m
          else
            (case cb chunk_upsampled (output_sample_rate m) of
               Some e \<Rightarrow> m\<lparr>audio_thread := Raised e\<rparr>
             | None \<Rightarrow>
                 m\<lparr>played := played m @ [(chunk_upsampled, output_sample_rate m)],
                   audio_thread := Running\<rparr>)
      | Ready chunk_upsampled \<Rightarrow>
          (case cb chunk_upsampled (output_sample_rate m) of
             Some e \<Rightarrow> m\<lparr>audio_thread := Raised e\<rparr>
           | None \<Rightarrow>
               m\<lparr>played := played m @ [(chunk_upsampled, output_sample_rate m)],
                 audio_thread := Running\<rparr>)
      | _ \<Rightarrow> m)"
  by (cases "audio_thread m")
    (simp_all add: worker_play_def worker_wait_def worker_call_def split: option.splits)

lemma worker_get_dead: "\<not> is_alive (audio_thread m) \<Longrightarrow> worker_get ratecv now m = m"
  by (cases "audio_thread m") (simp_all add: worker_get_eq)

lemma worker_play_dead: "\<not> is_alive (audio_thread m) \<Longrightarrow> worker_play cb now m = m"
  by (cases "audio_thread m") (simp_all add: worker_play_eq)

lemma worker_take_dead: "\<not> is_alive (audio_thread m) \<Longrightarrow> worker_take ratecv now m = m"
  by (cases "audio_thread m") (simp_all add: worker_take_def)

lemma worker_wait_dead: "\<not> is_alive (audio_thread m) \<Longrightarrow> worker_wait now m = m"
  by (cases "audio_thread m") (simp_all add: worker_wait_def)

lemma worker_call_dead: "\<not> is_alive (audio_thread m) \<Longrightarrow> worker_call cb m = m"
  by (cases "audio_thread m") (simp_all add: worker_call_def)

text \<open>
  With the stop flag set a live thread ends within three steps, whatever it was doing,
  and these steps are what \<open>thread_join\<close> waits for.
\<close>

lemma worker_steps_when_stopped:
  "stop_audio_thread m \<Longrightarrow> is_alive (audio_thread m) \<Longrightarrow>
     worker_get ratecv now (worker_wait now' (worker_call cb m)) = thread_join cb m"
  by (cases "audio_thread m")
    (simp_all add: worker_get_eq worker_wait_def worker_call_def thread_join_def
      split: option.splits)

lemma cleanup_eq:
  "cleanup cb m = m\<lparr>stop_audio_thread := True, audio_queue := [],
       audio_thread :=
         (case audio_thread m of
            Ready c \<Rightarrow> (case cb c (output_sample_rate m) of Some e \<Rightarrow> Raised e | None \<Rightarrow> Finished)
          | _ \<Rightarrow> if is_alive (audio_thread m) then Finished else audio_thread m),
       pause_until_timestamp := 0,
       played := played m @ last_call cb m\<rparr>"
  by (cases "audio_thread m")
    (simp_all add: cleanup_def thread_join_def worker_call_def last_call_def Let_def
      split: option.splits)

lemmas run_simps = add_chunk_inner_def start_audio_thread_def worker_get_eq worker_play_eq
  worker_take_def worker_wait_def worker_call_def cleanup_stop_def cleanup_drain_item_def
  cleanup_join_def
  upsample_chunk_to_output_sample_rate_def remaining_pause_time_def init_def cleanup_def
  thread_join_def Let_def ratecv_unchanged_def callback_returns_def callback_raises_on_def

text \<open>
  The wait for the end of a pause ends at once when the stop flag is set, and otherwise
  at the deadline, or at once when the deadline has passed. A step of the worker at
  that time plays the chunk.
\<close>

lemma wait_if_paused_ends:
  "wait_if_paused now m =
     (if stop_audio_thread m then now else max now (pause_until_timestamp m))"
proof (induction now m rule: wait_if_paused.induct)
  case (1 now m)
  show ?case
  proof (cases "stop_audio_thread m \<or> remaining_pause_time now m \<le> 0")
    case True
    then show ?thesis
      by (subst wait_if_paused.simps) (auto simp: remaining_pause_time_def Let_def max_def)
  next
    case False
    then have run: "\<not> stop_audio_thread m" and pos: "\<not> remaining_pause_time now m \<le> 0"
      by simp_all
    from pos have d: "now < pause_until_timestamp m"
      and rem: "remaining_pause_time now m = pause_until_timestamp m - now"
      by (auto simp: remaining_pause_time_def max_def split: if_splits)
    from "1.IH" [OF run refl pos] run
    have "wait_if_paused (now + min (remaining_pause_time now m) (5 / 100)) m =
        max (now + min (remaining_pause_time now m) (5 / 100)) (pause_until_timestamp m)"
      by simp
    also have "\<dots> = pause_until_timestamp m" using d rem by (simp add: max_def min_def)
    also have "\<dots> = max now (pause_until_timestamp m)" using d by simp
    finally show ?thesis
      using run pos by (subst wait_if_paused.simps) (simp add: Let_def)
  qed
qed

lemma worker_play_after_wait:
  assumes "audio_thread m = Holding chunk_upsampled" and "\<not> stop_audio_thread m"
    and "cb chunk_upsampled (output_sample_rate m) = None"
  shows "worker_play cb (wait_if_paused now m) m =
    m\<lparr>played := played m @ [(chunk_upsampled, output_sample_rate m)], audio_thread := Running\<rparr>"
  using assms
  by (simp add: worker_play_eq wait_if_paused_ends remaining_pause_time_def)

text \<open>
  The scenario of the repository's test \<^verbatim>\<open>test_realtime_audio_output_manager_respects_pause\<close>:
  a pause of 0.2 s, then a chunk of 160 samples at the output rate given to
  \<^verbatim>\<open>add_chunk_inner\<close>. A quarter of the pause later nothing has been played; after the
  pause the chunk has been played once, unchanged.
\<close>

lemma pause_scenario:
  "run ratecv_unchanged callback_returns
       [PauseFor 0 (2 / 10), AddChunkInner 0 (replicate 320 7) 16000, WorkerGet 0,
        WorkerPlay (5 / 100)]
       (init 0 0 16000) =
     Some ((init 0 0 16000)\<lparr>audio_thread := Holding (replicate 320 7),
             pause_until_timestamp := 2 / 10\<rparr>) \<and>
   run ratecv_unchanged callback_returns
       [PauseFor 0 (2 / 10), AddChunkInner 0 (replicate 320 7) 16000, WorkerGet 0,
        WorkerPlay (5 / 100), WorkerPlay (25 / 100)]
       (init 0 0 16000) =
     Some ((init 0 0 16000)\<lparr>audio_thread := Running, pause_until_timestamp := 2 / 10,
             played := [(replicate 320 7, 16000)]\<rparr>)"
  by (simp add: run_simps pause_for_def)

text \<open>
  Claim C3, as amended. A failure while an item is processed is not caught. When the
  conversion of the item taken from the queue raises, the item is gone from the queue,
  nothing is played and the exception ends the worker; when the callback raises, nothing
  is recorded as played and the exception ends the worker. The thread that has ended
  takes no further step, so the items behind the failing one stay in the queue; the next
  \<^verbatim>\<open>add_chunk_inner\<close> puts its chunk behind them and starts a new worker.
\<close>

theorem worker_failure_ends_thread:
  "(audio_thread m = Running \<and> \<not> stop_audio_thread m \<and> audio_queue m = (chunk, sample_rate) # rest \<and>
    upsample_chunk_to_output_sample_rate ratecv m chunk sample_rate = Inl e \<longrightarrow>
      worker_get ratecv now m = m\<lparr>audio_queue := rest, audio_thread := Raised e\<rparr>) \<and>
   (audio_thread m = Holding chunk_upsampled \<and> \<not> stop_audio_thread m \<and>
    remaining_pause_time now m \<le> 0 \<and> cb chunk_upsampled (output_sample_rate m) = Some e \<longrightarrow>
      worker_play cb now m = m\<lparr>audio_thread := Raised e\<rparr>) \<and>
   (audio_thread m = Raised e \<longrightarrow>
      worker_get ratecv now m = m \<and> worker_play cb now m = m \<and>
      add_chunk_inner now chunk sample_rate m =
        m\<lparr>audio_queue := audio_queue m @ [(chunk, sample_rate)], last_chunk_time := now,
          audio_thread := Running, stop_audio_thread := False\<rparr>)"
  by (auto simp: worker_get_eq worker_play_eq add_chunk_inner_eq)

text \<open>
  The theorem at output rate 16000: a conversion that raises, a callback that raises, a
  step of the dead thread, and the next \<^verbatim>\<open>add_chunk_inner\<close>.
\<close>

theorem worker_failure_ends_thread_witness:
  "worker_get ratecv_unchanged 1
     ((init 0 0 16000)\<lparr>audio_queue := [([1, 2, 3], 8000), ([5, 6], 16000)], audio_thread := Running\<rparr>) =
     (init 0 0 16000)\<lparr>audio_queue := [([5, 6], 16000)], audio_thread := Raised ValueError\<rparr> \<and>
   worker_play (callback_raises_on [1, 2]) 1
     ((init 0 0 16000)\<lparr>audio_queue := [([5, 6], 16000)], audio_thread := Holding [1, 2]\<rparr>) =
     (init 0 0 16000)\<lparr>audio_queue := [([5, 6], 16000)], audio_thread := Raised CallbackError\<rparr> \<and>
   worker_get ratecv_unchanged 2
     ((init 0 0 16000)\<lparr>audio_queue := [([5, 6], 16000)], audio_thread := Raised ValueError\<rparr>) =
     (init 0 0 16000)\<lparr>audio_queue := [([5, 6], 16000)], audio_thread := Raised ValueError\<rparr> \<and>
   add_chunk_inner 2 [7, 8] 16000
     ((init 0 0 16000)\<lparr>audio_queue := [([5, 6], 16000)], audio_thread := Raised ValueError\<rparr>) =
     (init 0 0 16000)\<lparr>audio_queue := [([5, 6], 16000), ([7, 8], 16000)], last_chunk_time := 2,
        audio_thread := Running\<rparr>"
  using worker_failure_ends_thread [where ratecv = ratecv_unchanged and now = 1
      and m = "(init 0 0 16000)\<lparr>audio_queue := [([1, 2, 3], 8000), ([5, 6], 16000)], audio_thread := Running\<rparr>"
      and chunk = "[1, 2, 3]" and sample_rate = 8000 and rest = "[([5, 6], 16000)]" and e = ValueError]
    worker_failure_ends_thread [where cb = "callback_raises_on [1, 2]" and now = 1
      and m = "(init 0 0 16000)\<lparr>audio_queue := [([5, 6], 16000)], audio_thread := Holding [1, 2]\<rparr>"
      and chunk_upsampled = "[1, 2]" and e = CallbackError]
    worker_failure_ends_thread [where ratecv = ratecv_unchanged and now = 2
      and m = "(init 0 0 16000)\<lparr>audio_queue := [([5, 6], 16000)], audio_thread := Raised ValueError\<rparr>"
      and chunk = "[7, 8]" and sample_rate = 16000 and e = ValueError]
  by (simp add: init_def upsample_chunk_to_output_sample_rate_def remaining_pause_time_def
      callback_raises_on_def)

text \<open>
  The claim as stated fails: with a frame of three bytes at rate 8000 followed by a good
  frame, or with a callback that raises on the first of two frames, the worker has ended
  after the first item and the second item is still in the queue, not played, however
  many steps the worker is given.
\<close>

theorem worker_failure_counterexample:
  "run ratecv_unchanged callback_returns
       [AddChunkInner 1 [1, 2, 3] 8000, AddChunkInner 1 [5, 6] 16000,
        WorkerGet 1, WorkerPlay 1, WorkerGet 1, WorkerPlay 1]
       (init 0 0 16000) =
     Some ((init 0 0 16000)\<lparr>audio_queue := [([5, 6], 16000)], last_chunk_time := 1,
             audio_thread := Raised ValueError\<rparr>) \<and>
   run ratecv_unchanged (callback_raises_on [1, 2])
       [AddChunkInner 1 [1, 2] 16000, AddChunkInner 1 [5, 6] 16000,
        WorkerGet 1, WorkerPlay 1, WorkerGet 1, WorkerPlay 1]
       (init 0 0 16000) =
     Some ((init 0 0 16000)\<lparr>audio_queue := [([5, 6], 16000)], last_chunk_time := 1,
             audio_thread := Raised CallbackError\<rparr>)"
  by (simp add: run_simps)

subsection \<open>Cleanup\<close>

text \<open>A run is taken part by part.\<close>

lemma run_append:
  "run ratecv cb (es @ fs) m =
     (case run ratecv cb es m of None \<Rightarrow> None | Some m' \<Rightarrow> run ratecv cb fs m')"
  by (induction es arbitrary: m) (simp_all split: option.splits)

text \<open>
  Once the stop flag is set, a step of the worker or of the loop that empties the queue
  leaves the flag set, and leaves unchanged what has been played together with the call
  that is still to come.
\<close>

lemma last_call_simps:
  "last_call cb (m\<lparr>audio_thread := Ready c\<rparr>) =
     (if cb c (output_sample_rate m) = None then [(c, output_sample_rate m)] else [])"
  "audio_thread m = Ready c \<Longrightarrow>
     last_call cb m = (if cb c (output_sample_rate m) = None then [(c, output_sample_rate m)] else [])"
  "\<not> is_alive (audio_thread m) \<Longrightarrow> last_call cb m = []"
  "audio_thread m = Running \<Longrightarrow> last_call cb m = []"
  "audio_thread m = Holding c \<Longrightarrow> last_call cb m = []"
  by (cases "audio_thread m"; simp add: last_call_def)+

lemma during_cleanup_step:
  assumes e: "during_cleanup e" and stop: "stop_audio_thread m"
  shows "\<exists>m'. step ratecv cb e m = Some m' \<and> stop_audio_thread m' \<and>
      played m' @ last_call cb m' = played m @ last_call cb m"
proof (cases e)
  case (WorkerGet now)
  with stop show ?thesis
    by (cases "audio_thread m") (simp_all add: worker_get_eq last_call_def)
next
  case (WorkerPlay now)
  with stop show ?thesis
    by (cases "audio_thread m")
      (simp_all add: worker_play_eq last_call_def split: option.splits)
next
  case (WorkerTake now)
  with stop show ?thesis
    by (cases "audio_thread m"; cases "audio_queue m")
      (auto simp: worker_take_def last_call_def split: sum.splits)
next
  case (WorkerWait now)
  with stop show ?thesis
    by (cases "audio_thread m") (simp_all add: worker_wait_def last_call_def)
next
  case WorkerCall
  with stop show ?thesis
    by (cases "audio_thread m")
      (simp_all add: worker_call_def last_call_def split: option.splits)
next
  case CleanupDrainItem
  with stop show ?thesis
    by (cases "audio_thread m") (simp_all add: cleanup_drain_item_def last_call_def)
next
  case (AddChunk now chunk sample_rate)
  with e show ?thesis by (simp add: during_cleanup_def)
next
  case (AddChunkInner now chunk sample_rate)
  with e show ?thesis by (simp add: during_cleanup_def)
next
  case (PauseFor now d)
  with e show ?thesis by (simp add: during_cleanup_def)
next
  case Cleanup
  with e show ?thesis by (simp add: during_cleanup_def)
next
  case CleanupStop
  with e show ?thesis by (simp add: during_cleanup_def)
next
  case CleanupJoin
  with e show ?thesis by (simp add: during_cleanup_def)
qed

lemma during_cleanup_run:
  "list_all during_cleanup ws \<Longrightarrow> stop_audio_thread m \<Longrightarrow>
     \<exists>m'. run ratecv cb ws m = Some m' \<and> stop_audio_thread m' \<and>
       played m' @ last_call cb m' = played m @ last_call cb m"
proof (induction ws arbitrary: m)
  case Nil
  then show ?case by simp
next
  case (Cons e ws)
  from Cons.prems have e: "during_cleanup e" and ws: "list_all during_cleanup ws" by simp_all
  from during_cleanup_step [OF e Cons.prems(2), of ratecv cb]
  obtain m1 where s1: "step ratecv cb e m = Some m1" and stop1: "stop_audio_thread m1"
    and p1: "played m1 @ last_call cb m1 = played m @ last_call cb m"
    by blast
  from Cons.IH [OF ws stop1]
  obtain m' where "run ratecv cb ws m1 = Some m'" "stop_audio_thread m'"
    "played m' @ last_call cb m' = played m1 @ last_call cb m1"
    by blast
  with s1 p1 show ?case by simp
qed

text \<open>
  Every way in which the steps of one call of \<^verbatim>\<open>cleanup\<close> and the steps of the worker
  can follow one another, when the call returns.
\<close>

lemma cleanup_interleaved:
  assumes ws: "list_all during_cleanup ws"
    and run: "run ratecv cb (CleanupStop # ws @ [CleanupJoin]) m = Some m'"
  shows "stop_audio_thread m' \<and> audio_queue m' = [] \<and> \<not> is_alive (audio_thread m') \<and>
    pause_until_timestamp m' = 0 \<and> played m' = played m @ last_call cb m"
proof -
  have stop0: "stop_audio_thread (cleanup_stop m)" by (simp add: cleanup_stop_def)
  from during_cleanup_run [OF ws stop0, of ratecv cb]
  obtain m1 where r1: "run ratecv cb ws (cleanup_stop m) = Some m1"
    and stop1: "stop_audio_thread m1"
    and p1: "played m1 @ last_call cb m1 = played (cleanup_stop m) @ last_call cb (cleanup_stop m)"
    by blast
  have p0: "played (cleanup_stop m) @ last_call cb (cleanup_stop m) = played m @ last_call cb m"
    by (cases "audio_thread m") (simp_all add: cleanup_stop_def last_call_def)
  from run r1 have j: "cleanup_join m1 = Some m'"
    by (simp add: run_append split: option.splits)
  then have q: "audio_queue m1 = []" and dead: "\<not> is_alive (audio_thread m1)"
    and m': "m' = m1\<lparr>pause_until_timestamp := 0\<rparr>"
    by (auto simp: cleanup_join_def split: if_splits)
  from dead have "last_call cb m1 = []" by (rule last_call_simps(3))
  with p1 p0 have "played m1 = played m @ last_call cb m" by simp
  with stop1 q dead show ?thesis unfolding m' by simp
qed

text \<open>
  \<open>cleanup\<close> is one of these ways: the flag is set, the queue is emptied item by item,
  the worker takes its last steps, and the call returns.
\<close>

lemma run_drain_items:
  "audio_queue m = q \<Longrightarrow>
     run ratecv cb (replicate (length q) CleanupDrainItem @ es) m =
     run ratecv cb es (m\<lparr>audio_queue := []\<rparr>)"
proof (induction q arbitrary: m)
  case Nil
  then have "m\<lparr>audio_queue := []\<rparr> = m" by (cases m) simp
  then show ?case by simp
next
  case (Cons x q)
  then have "audio_queue (cleanup_drain_item m) = q" by (simp add: cleanup_drain_item_def)
  from Cons.IH [OF this]
  have "run ratecv cb (replicate (length q) CleanupDrainItem @ es) (cleanup_drain_item m) =
      run ratecv cb es ((cleanup_drain_item m)\<lparr>audio_queue := []\<rparr>)" .
  moreover have "(cleanup_drain_item m)\<lparr>audio_queue := []\<rparr> = m\<lparr>audio_queue := []\<rparr>"
    by (simp add: cleanup_drain_item_def)
  ultimately show ?case by simp
qed

lemma cleanup_as_run:
  "run ratecv cb
     (CleanupStop # replicate (length (audio_queue m)) CleanupDrainItem @
        [WorkerCall, WorkerWait now, WorkerGet now', CleanupJoin]) m =
   Some (cleanup cb m)"
proof -
  let ?m2 = "m\<lparr>stop_audio_thread := True, audio_queue := []\<rparr>"
  have q: "audio_queue (cleanup_stop m) = audio_queue m" by (simp add: cleanup_stop_def)
  have "run ratecv cb
     (CleanupStop # replicate (length (audio_queue m)) CleanupDrainItem @
        [WorkerCall, WorkerWait now, WorkerGet now', CleanupJoin]) m =
     run ratecv cb [WorkerCall, WorkerWait now, WorkerGet now', CleanupJoin]
       ((cleanup_stop m)\<lparr>audio_queue := []\<rparr>)"
    using run_drain_items [OF q, of ratecv cb] by simp
  also have "(cleanup_stop m)\<lparr>audio_queue := []\<rparr> = ?m2" by (simp add: cleanup_stop_def)
  also have "run ratecv cb [WorkerCall, WorkerWait now, WorkerGet now', CleanupJoin] ?m2 =
      Some (cleanup cb m)"
    by (cases "audio_thread m")
      (simp_all add: worker_call_def worker_wait_def worker_get_eq cleanup_join_def
        cleanup_def thread_join_def Let_def split: option.splits)
  finally show ?thesis .
qed

text \<open>After the call has returned nothing is played and no worker is alive until a chunk is added.\<close>

lemma step_after_cleanup:
  assumes "\<not> adds_chunk e" "\<not> is_alive (audio_thread m)" "audio_queue m = []"
  shows "\<exists>m'. step ratecv cb e m = Some m' \<and> played m' = played m \<and>
    \<not> is_alive (audio_thread m') \<and> audio_queue m' = []"
  using assms
  by (cases e)
    (auto simp: worker_get_dead worker_play_dead worker_take_dead worker_wait_dead
      worker_call_dead cleanup_eq last_call_simps(3) pause_for_def Let_def cleanup_stop_def
      cleanup_drain_item_def cleanup_join_def split: thread_state.splits)

lemma run_without_adds:
  "list_all (\<lambda>e. \<not> adds_chunk e) es \<Longrightarrow> \<not> is_alive (audio_thread m) \<Longrightarrow>
   audio_queue m = [] \<Longrightarrow>
     \<exists>m'. run ratecv cb es m = Some m' \<and> played m' = played m \<and> \<not> is_alive (audio_thread m')"
proof (induction es arbitrary: m)
  case Nil
  then show ?case by simp
next
  case (Cons e es)
  from Cons.prems obtain m1 where m1: "step ratecv cb e m = Some m1"
    and p1: "played m1 = played m" and d1: "\<not> is_alive (audio_thread m1)"
    and q1: "audio_queue m1 = []"
    using step_after_cleanup [of e m ratecv cb] by auto
  from Cons.prems have "list_all (\<lambda>e. \<not> adds_chunk e) es" by simp
  from Cons.IH [OF this d1 q1] obtain m' where "run ratecv cb es m1 = Some m'"
    "played m' = played m1" "\<not> is_alive (audio_thread m')" by blast
  with m1 p1 show ?case by simp
qed

text \<open>
  Claim C7, as amended. \<^verbatim>\<open>cleanup\<close> sets the stop flag, empties the queue without
  playing, leaves no live worker and sets the pause deadline to zero. A worker that has
  passed its test of the stop flag when the flag is set still calls the callback with
  the frame it holds, before the call of \<^verbatim>\<open>cleanup\<close> returns; this frame apart, nothing
  is played: not the frames in the queue, and not a frame that the worker holds before
  the test. This holds when \<^verbatim>\<open>cleanup\<close> runs as one step, and in whatever way the steps
  of the call and the steps of the worker follow one another, of which the one step is
  an instance. Calling \<^verbatim>\<open>cleanup\<close> again changes nothing. After the call has returned
  the callback is not called and no worker is alive as long as no chunk is added: this
  holds for every run of pauses, cleanups and worker steps.
\<close>

theorem cleanup_effect:
  "cleanup cb m = m\<lparr>stop_audio_thread := True, audio_queue := [],
       audio_thread :=
         (case audio_thread m of
            Ready c \<Rightarrow> (case cb c (output_sample_rate m) of Some e \<Rightarrow> Raised e | None \<Rightarrow> Finished)
          | _ \<Rightarrow> if is_alive (audio_thread m) then Finished else audio_thread m),
       pause_until_timestamp := 0,
       played := played m @ last_call cb m\<rparr> \<and>
   \<not> is_alive (audio_thread (cleanup cb m)) \<and>
   cleanup cb (cleanup cb m) = cleanup cb m \<and>
   cleanup cb (m\<lparr>audio_queue := q\<rparr>) = cleanup cb m \<and>
   cleanup cb (m\<lparr>audio_queue := q, audio_thread := Holding c\<rparr>) =
     cleanup cb (m\<lparr>audio_queue := [], audio_thread := Running\<rparr>) \<and>
   (list_all during_cleanup ws \<and>
    run ratecv cb (CleanupStop # ws @ [CleanupJoin]) m = Some m' \<longrightarrow>
      stop_audio_thread m' \<and> audio_queue m' = [] \<and> \<not> is_alive (audio_thread m') \<and>
      pause_until_timestamp m' = 0 \<and> played m' = played m @ last_call cb m) \<and>
   run ratecv cb
     (CleanupStop # replicate (length (audio_queue m)) CleanupDrainItem @
        [WorkerCall, WorkerWait now, WorkerGet now, CleanupJoin]) m = Some (cleanup cb m) \<and>
   (list_all (\<lambda>e. \<not> adds_chunk e) es \<longrightarrow>
      (\<exists>m''. run ratecv cb es (cleanup cb m) = Some m'' \<and>
         played m'' = played m @ last_call cb m \<and> \<not> is_alive (audio_thread m'')))"
proof -
  have dead: "\<not> is_alive (audio_thread (cleanup cb m))"
    by (cases "audio_thread m") (simp_all add: cleanup_eq split: option.splits)
  have empty: "audio_queue (cleanup cb m) = []" by (simp add: cleanup_eq)
  have pl: "played (cleanup cb m) = played m @ last_call cb m" by (simp add: cleanup_eq)
  have c1: "cleanup cb m = m\<lparr>stop_audio_thread := True, audio_queue := [],
       audio_thread :=
         (case audio_thread m of
            Ready c \<Rightarrow> (case cb c (output_sample_rate m) of Some e \<Rightarrow> Raised e | None \<Rightarrow> Finished)
          | _ \<Rightarrow> if is_alive (audio_thread m) then Finished else audio_thread m),
       pause_until_timestamp := 0,
       played := played m @ last_call cb m\<rparr>"
    by (rule cleanup_eq)
  have c2: "cleanup cb (cleanup cb m) = cleanup cb m"
    by (cases "audio_thread m")
      (simp_all add: cleanup_eq last_call_def split: option.splits)
  have c3: "cleanup cb (m\<lparr>audio_queue := q\<rparr>) = cleanup cb m"
    by (cases "audio_thread m") (simp_all add: cleanup_eq last_call_def)
  have c4: "cleanup cb (m\<lparr>audio_queue := q, audio_thread := Holding c\<rparr>) =
     cleanup cb (m\<lparr>audio_queue := [], audio_thread := Running\<rparr>)"
    by (simp add: cleanup_eq last_call_def)
  have c5: "list_all during_cleanup ws \<and>
    run ratecv cb (CleanupStop # ws @ [CleanupJoin]) m = Some m' \<longrightarrow>
      stop_audio_thread m' \<and> audio_queue m' = [] \<and> \<not> is_alive (audio_thread m') \<and>
      pause_until_timestamp m' = 0 \<and> played m' = played m @ last_call cb m"
    using cleanup_interleaved [of ws ratecv cb m m'] by blast
  have c6: "run ratecv cb
     (CleanupStop # replicate (length (audio_queue m)) CleanupDrainItem @
        [WorkerCall, WorkerWait now, WorkerGet now, CleanupJoin]) m = Some (cleanup cb m)"
    by (rule cleanup_as_run)
  have c7: "list_all (\<lambda>e. \<not> adds_chunk e) es \<longrightarrow>
      (\<exists>m''. run ratecv cb es (cleanup cb m) = Some m'' \<and>
         played m'' = played m @ last_call cb m \<and> \<not> is_alive (audio_thread m''))"
    using run_without_adds [OF _ dead empty, of es ratecv cb] pl by auto
  from c1 dead c2 c3 c4 c5 c6 c7 show ?thesis by (intro conjI)
qed

text \<open>
  The theorem for a manager whose worker has passed the test of the stop flag with the
  frame \<open>[1, 2]\<close>, with one more frame in the queue: the worker calls the callback
  between two steps of \<^verbatim>\<open>cleanup\<close>, and the frame in the queue is not played.
\<close>

theorem cleanup_effect_witness:
  "list_all during_cleanup [CleanupDrainItem, WorkerCall, WorkerGet 1] \<and>
   run ratecv_unchanged callback_returns
     (CleanupStop # [CleanupDrainItem, WorkerCall, WorkerGet 1] @ [CleanupJoin])
     ((init 0 0 16000)\<lparr>audio_queue := [([3, 4], 16000)], audio_thread := Ready [1, 2],
        pause_until_timestamp := 5\<rparr>) =
     Some ((init 0 0 16000)\<lparr>stop_audio_thread := True, audio_thread := Finished,
        played := [([1, 2], 16000)]\<rparr>) \<and>
   cleanup callback_returns
     ((init 0 0 16000)\<lparr>audio_queue := [([3, 4], 16000)], audio_thread := Ready [1, 2],
        pause_until_timestamp := 5\<rparr>) =
     (init 0 0 16000)\<lparr>stop_audio_thread := True, audio_thread := Finished,
        played := [([1, 2], 16000)]\<rparr> \<and>
   cleanup callback_returns
     ((init 0 0 16000)\<lparr>audio_queue := [([3, 4], 16000)], audio_thread := Holding [1, 2],
        pause_until_timestamp := 5\<rparr>) =
     (init 0 0 16000)\<lparr>stop_audio_thread := True, audio_thread := Finished\<rparr> \<and>
   list_all (\<lambda>e. \<not> adds_chunk e) [WorkerPlay 2, WorkerGet 2, PauseFor 2 1, Cleanup, WorkerCall] \<and>
   (\<exists>m''. run ratecv_unchanged callback_returns
           [WorkerPlay 2, WorkerGet 2, PauseFor 2 1, Cleanup, WorkerCall]
           (cleanup callback_returns ((init 0 0 16000)\<lparr>audio_queue := [([3, 4], 16000)],
              audio_thread := Ready [1, 2], pause_until_timestamp := 5\<rparr>)) = Some m'' \<and>
         played m'' = [([1, 2], 16000)] \<and> \<not> is_alive (audio_thread m''))"
proof -
  let ?m = "(init 0 0 16000)\<lparr>audio_queue := [([3, 4], 16000)], audio_thread := Ready [1, 2],
        pause_until_timestamp := 5\<rparr>"
  let ?h = "(init 0 0 16000)\<lparr>audio_queue := [([3, 4], 16000)], audio_thread := Holding [1, 2],
        pause_until_timestamp := 5\<rparr>"
  let ?ws = "[CleanupDrainItem, WorkerCall, WorkerGet 1]"
  let ?es = "[WorkerPlay 2, WorkerGet 2, PauseFor 2 1, Cleanup, WorkerCall]"
  let ?r = "(init 0 0 16000)\<lparr>stop_audio_thread := True, audio_thread := Finished,
        played := [([1, 2], 16000)]\<rparr>"
  note t = cleanup_effect [where m = ?m and es = ?es and ws = ?ws and m' = ?r
      and ratecv = ratecv_unchanged and cb = callback_returns]
  note th = cleanup_effect [where m = ?h and cb = callback_returns]
  have ws: "list_all during_cleanup ?ws" by (simp add: during_cleanup_def)
  have no_adds: "list_all (\<lambda>e. \<not> adds_chunk e) ?es" by simp
  have lc: "last_call callback_returns ?m = [([1, 2], 16000)]"
    by (simp add: last_call_def callback_returns_def init_def)
  have lh: "last_call callback_returns ?h = []" by (simp add: last_call_def)
  have run: "run ratecv_unchanged callback_returns (CleanupStop # ?ws @ [CleanupJoin]) ?m = Some ?r"
    by (simp add: run_simps)
  from t have "cleanup callback_returns ?m = ?m\<lparr>stop_audio_thread := True, audio_queue := [],
       audio_thread :=
         (case audio_thread ?m of
            Ready c \<Rightarrow> (case callback_returns c (output_sample_rate ?m) of
               Some e \<Rightarrow> Raised e | None \<Rightarrow> Finished)
          | _ \<Rightarrow> if is_alive (audio_thread ?m) then Finished else audio_thread ?m),
       pause_until_timestamp := 0,
       played := played ?m @ last_call callback_returns ?m\<rparr>" by (rule conjunct1)
  then have c: "cleanup callback_returns ?m = ?r"
    unfolding lc by (simp add: init_def callback_returns_def)
  from th have "cleanup callback_returns ?h = ?h\<lparr>stop_audio_thread := True, audio_queue := [],
       audio_thread :=
         (case audio_thread ?h of
            Ready c \<Rightarrow> (case callback_returns c (output_sample_rate ?h) of
               Some e \<Rightarrow> Raised e | None \<Rightarrow> Finished)
          | _ \<Rightarrow> if is_alive (audio_thread ?h) then Finished else audio_thread ?h),
       pause_until_timestamp := 0,
       played := played ?h @ last_call callback_returns ?h\<rparr>" by (rule conjunct1)
  then have h: "cleanup callback_returns ?h =
      (init 0 0 16000)\<lparr>stop_audio_thread := True, audio_thread := Finished\<rparr>"
    unfolding lh by (simp add: init_def)
  from t ws run have "played ?r = played ?m @ last_call callback_returns ?m" by blast
  from t no_adds obtain m'' where
    "run ratecv_unchanged callback_returns ?es (cleanup callback_returns ?m) = Some m''"
    "played m'' = played ?m @ last_call callback_returns ?m" "\<not> is_alive (audio_thread m'')"
    by blast
  moreover have "played ?m @ last_call callback_returns ?m = [([1, 2], 16000)]"
    unfolding lc by (simp add: init_def)
  ultimately have ex: "\<exists>m''. run ratecv_unchanged callback_returns ?es
      (cleanup callback_returns ?m) = Some m'' \<and>
      played m'' = [([1, 2], 16000)] \<and> \<not> is_alive (audio_thread m'')"
    by auto
  from ws run c h no_adds ex show ?thesis by (intro conjI)
qed

text \<open>
  The claim as stated fails in two ways. A frame is queued and taken by the worker, which
  passes its test of the stop flag; \<^verbatim>\<open>cleanup\<close> is then called and sets the flag, and
  the worker calls the callback with the frame while \<^verbatim>\<open>cleanup\<close> waits for it: a frame
  that was enqueued and not yet played when \<^verbatim>\<open>cleanup\<close> was called reaches the
  callback. And once a chunk is added after \<^verbatim>\<open>cleanup\<close> has returned,
  \<^verbatim>\<open>add_chunk_inner\<close> starts a new worker and clears the stop flag, and the callback is
  called again.
\<close>

theorem cleanup_counterexample:
  "run ratecv_unchanged callback_returns
       [AddChunkInner 1 [1, 2] 16000, WorkerGet 1, WorkerWait 1,
        CleanupStop, CleanupDrainItem, WorkerCall, WorkerGet 1, CleanupJoin]
       (init 0 0 16000) =
     Some ((init 0 0 16000)\<lparr>last_chunk_time := 1, stop_audio_thread := True,
             audio_thread := Finished, played := [([1, 2], 16000)]\<rparr>) \<and>
   run ratecv_unchanged callback_returns
       [AddChunkInner 1 [1, 2] 16000, WorkerGet 1, WorkerWait 1, Cleanup]
       (init 0 0 16000) =
     Some ((init 0 0 16000)\<lparr>last_chunk_time := 1, stop_audio_thread := True,
             audio_thread := Finished, played := [([1, 2], 16000)]\<rparr>) \<and>
   run ratecv_unchanged callback_returns
       [AddChunkInner 1 [1, 2] 16000, Cleanup, AddChunkInner 2 [3, 4] 16000, WorkerGet 2, WorkerPlay 2]
       (init 0 0 16000) =
     Some ((init 0 0 16000)\<lparr>last_chunk_time := 2, audio_thread := Running,
             played := [([3, 4], 16000)]\<rparr>)"
  by (simp add: run_simps last_call_def)

subsection \<open>Idle timeout\<close>

text \<open>
  Claim C8, as amended. When \<^verbatim>\<open>get\<close> times out on an empty queue, the worker ends
  exactly when \<^verbatim>\<open>last_chunk_time\<close> is not zero and lies more than 10 seconds back, and
  otherwise goes on waiting unchanged. \<^verbatim>\<open>last_chunk_time\<close> is the time of the last call
  of \<^verbatim>\<open>add_chunk\<close> or \<^verbatim>\<open>add_chunk_inner\<close>, whether or not the call has queued a frame.
  After the worker has ended, the next \<^verbatim>\<open>add_chunk_inner\<close> starts a worker, and that
  worker plays the frame when conversion and callback succeed and no pause is pending.
\<close>

theorem idle_timeout_and_respawn:
  "(audio_thread m = Running \<and> \<not> stop_audio_thread m \<and> audio_queue m = [] \<longrightarrow>
      worker_get ratecv now m =
        (if last_chunk_time m \<noteq> 0 \<and> now - last_chunk_time m > 10
         then m\<lparr>audio_thread := Finished\<rparr> else m)) \<and>
   last_chunk_time (add_chunk_inner now chunk sample_rate m) = now \<and>
   (0 < chunk_size_bytes sample_rate \<longrightarrow>
      (\<exists>m'. add_chunk now chunk sample_rate m = Some m' \<and> last_chunk_time m' = now)) \<and>
   (audio_thread m = Finished \<and> audio_queue m = [] \<and>
    upsample_chunk_to_output_sample_rate ratecv m chunk sample_rate = Inr chunk_upsampled \<and>
    cb chunk_upsampled (output_sample_rate m) = None \<and> pause_until_timestamp m \<le> now' \<longrightarrow>
      audio_thread (add_chunk_inner now chunk sample_rate m) = Running \<and>
      worker_play cb now' (worker_get ratecv now' (add_chunk_inner now chunk sample_rate m)) =
        m\<lparr>last_chunk_time := now, stop_audio_thread := False, audio_thread := Running,
          played := played m @ [(chunk_upsampled, output_sample_rate m)]\<rparr>)"
proof -
  have idle: "audio_thread m = Running \<and> \<not> stop_audio_thread m \<and> audio_queue m = [] \<longrightarrow>
      worker_get ratecv now m =
        (if last_chunk_time m \<noteq> 0 \<and> now - last_chunk_time m > 10
         then m\<lparr>audio_thread := Finished\<rparr> else m)"
    by (simp add: worker_get_eq)
  have stamp: "last_chunk_time (add_chunk_inner now chunk sample_rate m) = now"
    by (simp add: add_chunk_inner_eq)
  have stamp2: "0 < chunk_size_bytes sample_rate \<longrightarrow>
      (\<exists>m'. add_chunk now chunk sample_rate m = Some m' \<and> last_chunk_time m' = now)"
    using add_chunk_closed_form [where sample_rate = sample_rate and now = now and m = m and chunk = chunk]
    by auto
  have respawn: "audio_thread m = Finished \<and> audio_queue m = [] \<and>
    upsample_chunk_to_output_sample_rate ratecv m chunk sample_rate = Inr chunk_upsampled \<and>
    cb chunk_upsampled (output_sample_rate m) = None \<and> pause_until_timestamp m \<le> now' \<longrightarrow>
      audio_thread (add_chunk_inner now chunk sample_rate m) = Running \<and>
      worker_play cb now' (worker_get ratecv now' (add_chunk_inner now chunk sample_rate m)) =
        m\<lparr>last_chunk_time := now, stop_audio_thread := False, audio_thread := Running,
          played := played m @ [(chunk_upsampled, output_sample_rate m)]\<rparr>"
    by (auto simp: add_chunk_inner_eq worker_get_eq worker_play_eq remaining_pause_time_def
        upsample_chunk_to_output_sample_rate_def Let_def split: sum.splits if_splits)
  from idle stamp stamp2 respawn show ?thesis by blast
qed

text \<open>
  The theorem for a worker that has been idle since time 100: at time 105 it goes on, at
  time 111 it ends, and a frame added at time 120 is played by a new worker.
\<close>

theorem idle_timeout_and_respawn_witness:
  "worker_get ratecv_unchanged 105
     ((init 0 0 16000)\<lparr>audio_thread := Running, last_chunk_time := 100\<rparr>) =
     (init 0 0 16000)\<lparr>audio_thread := Running, last_chunk_time := 100\<rparr> \<and>
   worker_get ratecv_unchanged 111
     ((init 0 0 16000)\<lparr>audio_thread := Running, last_chunk_time := 100\<rparr>) =
     (init 0 0 16000)\<lparr>audio_thread := Finished, last_chunk_time := 100\<rparr> \<and>
   0 < chunk_size_bytes 16000 \<and>
   (\<exists>m'. add_chunk 109 [7] 16000 ((init 0 0 16000)\<lparr>audio_thread := Running, last_chunk_time := 100\<rparr>)
       = Some m' \<and> last_chunk_time m' = 109) \<and>
   worker_play callback_returns 121 (worker_get ratecv_unchanged 121
     (add_chunk_inner 120 [1, 2] 16000
        ((init 0 0 16000)\<lparr>audio_thread := Finished, last_chunk_time := 100\<rparr>))) =
     (init 0 0 16000)\<lparr>audio_thread := Running, last_chunk_time := 120,
        played := [([1, 2], 16000)]\<rparr>"
  using idle_timeout_and_respawn [where ratecv = ratecv_unchanged and now = 105
      and m = "(init 0 0 16000)\<lparr>audio_thread := Running, last_chunk_time := 100\<rparr>"
      and sample_rate = 16000]
    idle_timeout_and_respawn [where ratecv = ratecv_unchanged and now = 111
      and m = "(init 0 0 16000)\<lparr>audio_thread := Running, last_chunk_time := 100\<rparr>"
      and sample_rate = 16000]
    idle_timeout_and_respawn [where ratecv = ratecv_unchanged and now = 109
      and m = "(init 0 0 16000)\<lparr>audio_thread := Running, last_chunk_time := 100\<rparr>"
      and sample_rate = 16000 and chunk = "[7]"]
    idle_timeout_and_respawn [where ratecv = ratecv_unchanged and now = 120 and now' = 121
      and m = "(init 0 0 16000)\<lparr>audio_thread := Finished, last_chunk_time := 100\<rparr>"
      and sample_rate = 16000 and chunk = "[1, 2]" and chunk_upsampled = "[1, 2]"
      and cb = callback_returns]
  by (simp add: init_def chunk_size_bytes_nonneg upsample_chunk_to_output_sample_rate_def
      callback_returns_def)

text \<open>
  The claim as stated fails in two ways. A frame is queued at time 100 and played; a call
  of \<^verbatim>\<open>add_chunk\<close> at time 109 brings one byte and queues nothing; at time 111 the worker
  finds the queue empty and goes on, 11 seconds after the last frame was queued. And with
  \<^verbatim>\<open>last_chunk_time\<close> equal to zero the worker never ends by timeout.
\<close>

theorem idle_timeout_counterexample:
  "run ratecv_unchanged callback_returns
       [AddChunkInner 100 [1, 2] 16000, WorkerGet 100, WorkerPlay 100,
        AddChunk 109 [7] 16000, WorkerGet 111]
       (init 99 0 16000) =
     Some ((init 99 0 16000)\<lparr>last_chunk_time := 109, audio_thread := Running,
             inner_chunk_buffer := [7], played := [([1, 2], 16000)]\<rparr>) \<and>
   (111 :: real) - 100 > 10 \<and>
   audio_thread (worker_get ratecv_unchanged 20
      ((init 0 0 16000)\<lparr>audio_thread := Running\<rparr>)) = Running"
  by (simp add: run_simps add_chunk_def add_chunk_loop.simps chunk_size_bytes_nonneg)

subsection \<open>Frames from the calls to the callback\<close>

text \<open>Frames of a sequence and of a longer one.\<close>

lemma frames_of_short: "length xs < n \<Longrightarrow> frames_of n xs = []"
  by (simp add: frames_of_def)

lemma frames_of_step:
  assumes "0 < n" "n \<le> length xs"
  shows "frames_of n xs = take n xs # frames_of n (drop n xs)"
proof -
  from assms have "length xs div n = Suc (length (drop n xs) div n)"
    by (simp add: le_div_geq)
  then show ?thesis
    unfolding frames_of_def by (simp only: map_upt_Suc) (simp add: add.commute)
qed

lemma frames_of_append:
  assumes n: "0 < n"
  shows "length xs div n = k \<Longrightarrow>
    frames_of n (xs @ ys) = frames_of n xs @ frames_of n (drop (k * n) xs @ ys)"
proof (induction k arbitrary: xs)
  case 0
  with n have "length xs < n" by (simp add: div_eq_0_iff)
  then show ?case by (simp add: frames_of_short)
next
  case (Suc k)
  from Suc.prems n have ge: "n \<le> length xs"
    by (metis div_less not_less nat.simps(3))
  with Suc.prems n have k: "length (drop n xs) div n = k" by (simp add: le_div_geq)
  have "frames_of n (xs @ ys) = take n xs # frames_of n (drop n xs @ ys)"
    using frames_of_step [OF n, of "xs @ ys"] ge by simp
  also have "frames_of n (drop n xs @ ys) =
      frames_of n (drop n xs) @ frames_of n (drop (k * n) (drop n xs) @ ys)"
    by (rule Suc.IH [OF k])
  also have "drop (k * n) (drop n xs) = drop (Suc k * n) xs" by (simp add: add.commute)
  finally show ?case using frames_of_step [OF n ge] by simp
qed

lemma frames_of_lengths: "f \<in> set (frames_of n xs) \<Longrightarrow> length f = n"
proof -
  assume "f \<in> set (frames_of n xs)"
  then obtain i where "i < length xs div n" and "f = take n (drop (i * n) xs)"
    by (auto simp: frames_of_def)
  then show ?thesis using frame_length [of i xs n] by simp
qed

text \<open>The conversion reads nothing of the manager but the output rate.\<close>

lemma upsample_chunk_only_rate:
  "output_sample_rate m' = output_sample_rate m \<Longrightarrow>
     upsample_chunk_to_output_sample_rate ratecv m' chunk sample_rate =
     upsample_chunk_to_output_sample_rate ratecv m chunk sample_rate"
  by (simp only: upsample_chunk_to_output_sample_rate_def)

text \<open>
  What each event of a stream does to the frames played and to those still pending, and
  that it leaves the manager in a stream state.
\<close>

lemma stream_add_chunk:
  fixes now :: real and m :: manager and chunk :: "byte list"
  assumes pos: "0 < chunk_size_bytes r"
    and st: "stream_state r m"
  defines "data \<equiv> (if now - last_chunk_time m > 15 / 100 then [] else inner_chunk_buffer m) @ chunk"
  shows "\<exists>m'. add_chunk now chunk r m = Some m' \<and>
      output_sample_rate m' = output_sample_rate m \<and>
      pause_until_timestamp m' = pause_until_timestamp m \<and>
      stream_state r m' \<and> played m' = played m \<and> last_chunk_time m' = now \<and>
      pending conv m' = pending conv m @
        map (\<lambda>f. (conv f, output_sample_rate m))
          (frames_of (nat (chunk_size_bytes r)) data) \<and>
      inner_chunk_buffer m' =
        drop (length data div nat (chunk_size_bytes r) * nat (chunk_size_bytes r)) data"
proof -
  let ?n = "nat (chunk_size_bytes r)"
  let ?data = "data"
  let ?k = "length ?data div ?n"
  let ?m' = "m\<lparr>audio_queue := audio_queue m @ map (\<lambda>f. (f, r)) (frames_of ?n ?data),
              inner_chunk_buffer := drop (?k * ?n) ?data,
              last_chunk_time := now,
              audio_thread := (if ?k = 0 \<or> is_alive (audio_thread m) then audio_thread m else Running),
              stop_audio_thread :=
                (if ?k = 0 \<or> is_alive (audio_thread m) then stop_audio_thread m else False)\<rparr>"
  have data: "(if now - last_chunk_time m > 15 / 100 then [] else inner_chunk_buffer m) @ chunk = ?data"
    by (simp add: data_def)
  have q: "map (\<lambda>i. (take ?n (drop (i * ?n) ?data), r)) [0..<?k] =
      map (\<lambda>f. (f, r)) (frames_of ?n ?data)"
    unfolding frames_of_def by (simp only: map_map o_def)
  note cf = add_chunk_closed_form [OF pos, where now = now and m = m and chunk = chunk,
      unfolded data q]
  from cf have eq: "add_chunk now chunk r m = Some ?m'" by (rule conjunct1)
  from cf have rest: "length (drop (?k * ?n) ?data) < ?n" by blast
  have lens: "list_all (\<lambda>(c, r'). r' = r \<and> int (length c) = chunk_size_bytes r)
      (map (\<lambda>f. (f, r)) (frames_of ?n ?data))"
    using pos by (auto simp: list_all_iff frames_of_lengths)
  have k0: "?k = 0 \<Longrightarrow> frames_of ?n ?data = []" by (simp add: frames_of_def)
  have kpos: "?k \<noteq> 0 \<Longrightarrow> frames_of ?n ?data \<noteq> []" by (simp add: frames_of_def)
  have thr: "audio_thread ?m' =
      (if ?k = 0 \<or> is_alive (audio_thread m) then audio_thread m else Running)"
    and stp: "stop_audio_thread ?m' =
      (if ?k = 0 \<or> is_alive (audio_thread m) then stop_audio_thread m else False)"
    and que: "audio_queue ?m' = audio_queue m @ map (\<lambda>f. (f, r)) (frames_of ?n ?data)"
    and buf: "inner_chunk_buffer ?m' = drop (?k * ?n) ?data"
    and out: "output_sample_rate ?m' = output_sample_rate m"
    by simp_all
  from st have s1: "is_alive (audio_thread m) \<longrightarrow> \<not> stop_audio_thread m"
    and s2: "audio_queue m \<noteq> [] \<longrightarrow> is_alive (audio_thread m)"
    and s3: "list_all (\<lambda>(c, r'). r' = r \<and> int (length c) = chunk_size_bytes r) (audio_queue m)"
    by (simp_all add: stream_state_def)
  have a1: "is_alive (audio_thread ?m') \<longrightarrow> \<not> stop_audio_thread ?m'"
    unfolding thr stp using s1 by simp
  have a2: "audio_queue ?m' \<noteq> [] \<longrightarrow> is_alive (audio_thread ?m')"
    unfolding thr que using s2 k0 by simp
  have a3: "list_all (\<lambda>(c, r'). r' = r \<and> int (length c) = chunk_size_bytes r) (audio_queue ?m')"
    unfolding que using s3 lens by simp
  have a4: "int (length (inner_chunk_buffer ?m')) < chunk_size_bytes r"
    unfolding buf using rest pos by linarith
  from a1 a2 a3 a4 have st': "stream_state r ?m'"
    unfolding stream_state_def by (intro conjI)
  have hold: "(case audio_thread ?m' of Holding u \<Rightarrow> [(u, output_sample_rate m)]
        | Ready u \<Rightarrow> [(u, output_sample_rate m)] | _ \<Rightarrow> []) =
      (case audio_thread m of Holding u \<Rightarrow> [(u, output_sample_rate m)]
        | Ready u \<Rightarrow> [(u, output_sample_rate m)] | _ \<Rightarrow> [])"
    unfolding thr by (cases "audio_thread m") auto
  have pend: "pending conv ?m' = pending conv m @
        map (\<lambda>f. (conv f, output_sample_rate m)) (frames_of ?n ?data)"
    unfolding pending_def hold que out by (simp add: o_def)
  have others: "pause_until_timestamp ?m' = pause_until_timestamp m" "played ?m' = played m"
    "last_chunk_time ?m' = now"
    by simp_all
  from eq out others st' pend buf show ?thesis by blast
qed

lemma stream_worker_get:
  assumes st: "stream_state r m"
    and conv: "\<forall>c. int (length c) = chunk_size_bytes r \<longrightarrow>
        upsample_chunk_to_output_sample_rate ratecv m c r = Inr (conv c)"
  shows "output_sample_rate (worker_get ratecv now m) = output_sample_rate m \<and>
      pause_until_timestamp (worker_get ratecv now m) = pause_until_timestamp m \<and>
      stream_state r (worker_get ratecv now m) \<and>
      played (worker_get ratecv now m) = played m \<and>
      last_chunk_time (worker_get ratecv now m) = last_chunk_time m \<and>
      pending conv (worker_get ratecv now m) = pending conv m \<and>
      inner_chunk_buffer (worker_get ratecv now m) = inner_chunk_buffer m"
  using st conv
  by (cases "audio_thread m"; cases "audio_queue m")
    (auto simp: worker_get_eq stream_state_def pending_def)

lemma stream_worker_take:
  assumes st: "stream_state r m"
  shows "worker_take ratecv now m = worker_get ratecv now m"
  using st by (cases "audio_thread m") (simp_all add: worker_get_def worker_take_def stream_state_def)

lemma stream_worker_wait:
  assumes st: "stream_state r m"
  shows "output_sample_rate (worker_wait now m) = output_sample_rate m \<and>
      pause_until_timestamp (worker_wait now m) = pause_until_timestamp m \<and>
      stream_state r (worker_wait now m) \<and>
      played (worker_wait now m) = played m \<and>
      pending conv (worker_wait now m) = pending conv m \<and>
      last_chunk_time (worker_wait now m) = last_chunk_time m \<and>
      inner_chunk_buffer (worker_wait now m) = inner_chunk_buffer m"
  using st
  by (cases "audio_thread m") (auto simp: worker_wait_def stream_state_def pending_def)

lemma stream_worker_call:
  assumes st: "stream_state r m"
    and cb: "\<forall>b. cb b (output_sample_rate m) = None"
  shows "output_sample_rate (worker_call cb m) = output_sample_rate m \<and>
      pause_until_timestamp (worker_call cb m) = pause_until_timestamp m \<and>
      stream_state r (worker_call cb m) \<and>
      played (worker_call cb m) @ pending conv (worker_call cb m) =
        played m @ pending conv m \<and>
      last_chunk_time (worker_call cb m) = last_chunk_time m \<and>
      inner_chunk_buffer (worker_call cb m) = inner_chunk_buffer m"
  using st cb
  by (cases "audio_thread m") (auto simp: worker_call_def stream_state_def pending_def)

lemma stream_worker_play:
  assumes st: "stream_state r m"
    and cb: "\<forall>b. cb b (output_sample_rate m) = None"
  shows "output_sample_rate (worker_play cb now m) = output_sample_rate m \<and>
      pause_until_timestamp (worker_play cb now m) = pause_until_timestamp m \<and>
      stream_state r (worker_play cb now m) \<and>
      played (worker_play cb now m) @ pending conv (worker_play cb now m) =
        played m @ pending conv m \<and>
      last_chunk_time (worker_play cb now m) = last_chunk_time m \<and>
      inner_chunk_buffer (worker_play cb now m) = inner_chunk_buffer m"
  using st cb
  by (cases "audio_thread m") (auto simp: worker_play_eq stream_state_def pending_def)

lemma stream_pause_for:
  "output_sample_rate (pause_for now d m) = output_sample_rate m \<and>
   stream_state r (pause_for now d m) = stream_state r m \<and>
   played (pause_for now d m) = played m \<and>
   pending conv (pause_for now d m) = pending conv m \<and>
   last_chunk_time (pause_for now d m) = last_chunk_time m \<and>
   inner_chunk_buffer (pause_for now d m) = inner_chunk_buffer m"
proof -
  have "pause_for now d m = m\<lparr>pause_until_timestamp :=
      (if d \<le> 0 then pause_until_timestamp m else max (pause_until_timestamp m) (now + d))\<rparr>"
    by (simp add: pause_for_def Let_def max_def)
  then show ?thesis
    by (cases "audio_thread m") (simp_all add: stream_state_def pending_def)
qed

lemma stream_state_init:
  "0 < chunk_size_bytes r \<Longrightarrow> stream_state r (init now sleep_time rate)"
  by (simp add: stream_state_def init_def)

lemma stream_state_short:
  "stream_state r m \<Longrightarrow> length (inner_chunk_buffer m) < nat (chunk_size_bytes r)"
  by (simp add: stream_state_def zless_nat_eq_int_zless)

lemma stream_frames_lengths:
  "f \<in> set (stream_frames n t0 b es) \<Longrightarrow> length f = n"
  by (induction n t0 b es rule: stream_frames.induct)
    (auto simp: Let_def frames_of_lengths)

lemma stream_run:
  assumes pos: "0 < chunk_size_bytes r"
    and cb: "\<forall>b. cb b out = None"
  shows "stream_state r m \<Longrightarrow> output_sample_rate m = out \<Longrightarrow>
    \<forall>c. int (length c) = chunk_size_bytes r \<longrightarrow>
        upsample_chunk_to_output_sample_rate ratecv m c r = Inr (conv c) \<Longrightarrow>
    list_all (stream_event r) es \<Longrightarrow>
    \<exists>m'. run ratecv cb es m = Some m' \<and> output_sample_rate m' = out \<and> stream_state r m' \<and>
      played m' @ pending conv m' =
        played m @ pending conv m @
        map (\<lambda>f. (conv f, out))
          (stream_frames (nat (chunk_size_bytes r)) (last_chunk_time m) (inner_chunk_buffer m) es)"
proof (induction es arbitrary: m)
  case Nil
  then show ?case by simp
next
  case (Cons e es)
  let ?n = "nat (chunk_size_bytes r)"
  note st = Cons.prems(1) and out = Cons.prems(2) and conv = Cons.prems(3)
  from Cons.prems(4) have ev: "stream_event r e" and evs: "list_all (stream_event r) es"
    by simp_all
  have one: "\<exists>m1 F. step ratecv cb e m = Some m1 \<and> output_sample_rate m1 = out \<and>
      stream_state r m1 \<and>
      played m1 @ pending conv m1 = played m @ pending conv m @ map (\<lambda>f. (conv f, out)) F \<and>
      stream_frames ?n (last_chunk_time m) (inner_chunk_buffer m) (e # es) =
        F @ stream_frames ?n (last_chunk_time m1) (inner_chunk_buffer m1) es"
  proof (cases e)
    case (AddChunk now chunk sample_rate)
    with ev have r: "sample_rate = r" by simp
    let ?data = "(if now - last_chunk_time m > 15 / 100 then [] else inner_chunk_buffer m) @ chunk"
    from stream_add_chunk [where m = m and r = r and now = now and conv = conv and chunk = chunk,
        OF pos st]
    obtain m1 where "add_chunk now chunk r m = Some m1" "output_sample_rate m1 = out"
      "stream_state r m1" "played m1 = played m" "last_chunk_time m1 = now"
      "pending conv m1 = pending conv m @ map (\<lambda>f. (conv f, out)) (frames_of ?n ?data)"
      "inner_chunk_buffer m1 = drop (length ?data div ?n * ?n) ?data"
      using out by auto
    then show ?thesis using AddChunk r
      by (intro exI [of _ m1] exI [of _ "frames_of ?n ?data"]) (simp add: Let_def)
  next
    case (AddChunkInner now chunk sample_rate)
    with ev show ?thesis by simp
  next
    case (PauseFor now d)
    then show ?thesis
      using stream_pause_for [of now d m r conv] st out
      by (intro exI [of _ "pause_for now d m"] exI [of _ "[]"]) simp
  next
    case Cleanup
    with ev show ?thesis by simp
  next
    case (WorkerGet now)
    then show ?thesis
      using stream_worker_get [where ratecv = ratecv and m = m and r = r and now = now
          and conv = conv, OF st conv] out
      by (intro exI [of _ "worker_get ratecv now m"] exI [of _ "[]"]) simp
  next
    case (WorkerPlay now)
    from cb out have cb': "\<forall>b. cb b (output_sample_rate m) = None" by simp
    from WorkerPlay show ?thesis
      using stream_worker_play [where cb = cb and m = m and r = r and now = now
          and conv = conv, OF st cb'] out
      by (intro exI [of _ "worker_play cb now m"] exI [of _ "[]"]) simp
  next
    case (WorkerTake now)
    then show ?thesis
      using stream_worker_get [where ratecv = ratecv and m = m and r = r and now = now
          and conv = conv, OF st conv] out stream_worker_take [OF st, of ratecv now]
      by (intro exI [of _ "worker_get ratecv now m"] exI [of _ "[]"]) simp
  next
    case (WorkerWait now)
    then show ?thesis
      using stream_worker_wait [where m = m and r = r and now = now and conv = conv, OF st] out
      by (intro exI [of _ "worker_wait now m"] exI [of _ "[]"]) simp
  next
    case WorkerCall
    from cb out have cb': "\<forall>b. cb b (output_sample_rate m) = None" by simp
    from WorkerCall show ?thesis
      using stream_worker_call [where cb = cb and m = m and r = r
          and conv = conv, OF st cb'] out
      by (intro exI [of _ "worker_call cb m"] exI [of _ "[]"]) simp
  next
    case CleanupStop
    with ev show ?thesis by simp
  next
    case CleanupDrainItem
    with ev show ?thesis by simp
  next
    case CleanupJoin
    with ev show ?thesis by simp
  qed
  then obtain m1 F where s1: "step ratecv cb e m = Some m1"
    and out1: "output_sample_rate m1 = out" and st1: "stream_state r m1"
    and line1: "played m1 @ pending conv m1 =
        played m @ pending conv m @ map (\<lambda>f. (conv f, out)) F"
    and fr: "stream_frames ?n (last_chunk_time m) (inner_chunk_buffer m) (e # es) =
        F @ stream_frames ?n (last_chunk_time m1) (inner_chunk_buffer m1) es"
    by blast
  have conv1: "\<forall>c. int (length c) = chunk_size_bytes r \<longrightarrow>
        upsample_chunk_to_output_sample_rate ratecv m1 c r = Inr (conv c)"
    using conv upsample_chunk_only_rate [of m1 m] out out1 by simp
  from Cons.IH [OF st1 out1 conv1 evs]
  obtain m' where r': "run ratecv cb es m1 = Some m'"
    and out': "output_sample_rate m' = out" and st': "stream_state r m'"
    and line': "played m' @ pending conv m' = played m1 @ pending conv m1 @
        map (\<lambda>f. (conv f, out))
          (stream_frames ?n (last_chunk_time m1) (inner_chunk_buffer m1) es)"
    by blast
  have "run ratecv cb (e # es) m = Some m'" using s1 r' by simp
  moreover have "played m' @ pending conv m' = played m @ pending conv m @
        map (\<lambda>f. (conv f, out))
          (stream_frames ?n (last_chunk_time m) (inner_chunk_buffer m) (e # es))"
  proof -
    have "played m' @ pending conv m' = (played m1 @ pending conv m1) @
        map (\<lambda>f. (conv f, out))
          (stream_frames ?n (last_chunk_time m1) (inner_chunk_buffer m1) es)"
      using line' by simp
    also have "\<dots> = (played m @ pending conv m @ map (\<lambda>f. (conv f, out)) F) @
        map (\<lambda>f. (conv f, out))
          (stream_frames ?n (last_chunk_time m1) (inner_chunk_buffer m1) es)"
      by (simp only: line1)
    finally show ?thesis unfolding fr by simp
  qed
  ultimately show ?case using out' st' by blast
qed

lemma stream_frames_no_gap:
  assumes n: "0 < n"
  shows "length b < n \<Longrightarrow> gaps_within t0 (add_chunk_times es) \<Longrightarrow>
    stream_frames n t0 b es = frames_of n (b @ added_bytes es)"
proof (induction es arbitrary: t0 b)
  case Nil
  then show ?case by (simp add: frames_of_short)
next
  case (Cons e es)
  show ?case
  proof (cases e)
    case (AddChunk now chunk sample_rate)
    let ?data = "b @ chunk"
    let ?rest = "drop (length ?data div n * n) ?data"
    from Cons.prems(2) AddChunk have gap: "\<not> now - t0 > 15 / 100"
      and gaps: "gaps_within now (add_chunk_times es)" by simp_all
    have "length ?rest = length ?data mod n"
      by (simp only: length_drop minus_div_mult_eq_mod)
    with n have short: "length ?rest < n" by simp
    from Cons.IH [OF short gaps]
    have "stream_frames n now ?rest es = frames_of n (?rest @ added_bytes es)" .
    moreover have "frames_of n (?data @ added_bytes es) =
        frames_of n ?data @ frames_of n (?rest @ added_bytes es)"
      by (rule frames_of_append [OF n refl])
    ultimately show ?thesis using AddChunk gap by (simp add: Let_def)
  next
    case (AddChunkInner now chunk sample_rate)
    with Cons show ?thesis by simp
  next
    case (PauseFor now d)
    with Cons show ?thesis by simp
  next
    case Cleanup
    with Cons show ?thesis by simp
  next
    case (WorkerGet now)
    with Cons show ?thesis by simp
  next
    case (WorkerPlay now)
    with Cons show ?thesis by simp
  next
    case (WorkerTake now)
    with Cons show ?thesis by simp
  next
    case (WorkerWait now)
    with Cons show ?thesis by simp
  next
    case WorkerCall
    with Cons show ?thesis by simp
  next
    case CleanupStop
    with Cons show ?thesis by simp
  next
    case CleanupDrainItem
    with Cons show ?thesis by simp
  next
    case CleanupJoin
    with Cons show ?thesis by simp
  qed
qed

lemma stream_pair_progress:
  assumes st: "stream_state r m"
    and conv: "\<forall>c. int (length c) = chunk_size_bytes r \<longrightarrow>
        upsample_chunk_to_output_sample_rate ratecv m c r = Inr (conv c)"
    and cb: "\<forall>b. cb b (output_sample_rate m) = None"
    and pause: "pause_until_timestamp m \<le> now"
    and ne: "pending conv m = p # ps"
  shows "played (worker_play cb now (worker_get ratecv now m)) = played m @ [p] \<and>
    pending conv (worker_play cb now (worker_get ratecv now m)) = ps"
proof (cases "audio_thread m")
  case (Holding u)
  with st have "\<not> stop_audio_thread m" by (simp add: stream_state_def)
  with Holding cb pause ne show ?thesis
    by (auto simp: worker_get_eq worker_play_eq pending_def remaining_pause_time_def)
next
  case Running
  with st have ns: "\<not> stop_audio_thread m" by (simp add: stream_state_def)
  from Running ne obtain c r' rest where q: "audio_queue m = (c, r') # rest"
    by (cases "audio_queue m") (auto simp: pending_def)
  with st have "r' = r" "int (length c) = chunk_size_bytes r" by (simp_all add: stream_state_def)
  with conv have "upsample_chunk_to_output_sample_rate ratecv m c r' = Inr (conv c)" by simp
  with Running ns q cb pause ne show ?thesis
    by (auto simp: worker_get_eq worker_play_eq pending_def remaining_pause_time_def)
next
  case (Ready u)
  with cb ne show ?thesis
    by (auto simp: worker_get_eq worker_play_eq pending_def)
next
  case NoThread
  with st ne show ?thesis by (cases "audio_queue m") (auto simp: stream_state_def pending_def)
next
  case Finished
  with st ne show ?thesis by (cases "audio_queue m") (auto simp: stream_state_def pending_def)
next
  case (Raised e)
  with st ne show ?thesis by (cases "audio_queue m") (auto simp: stream_state_def pending_def)
qed

lemma stream_drain:
  assumes cb: "\<forall>b. cb b out = None"
  shows "stream_state r m \<Longrightarrow> output_sample_rate m = out \<Longrightarrow>
    \<forall>c. int (length c) = chunk_size_bytes r \<longrightarrow>
        upsample_chunk_to_output_sample_rate ratecv m c r = Inr (conv c) \<Longrightarrow>
    pause_until_timestamp m \<le> now \<Longrightarrow> length (pending conv m) = j \<Longrightarrow>
    \<exists>m'. run ratecv cb (drain now j) m = Some m' \<and> played m' = played m @ pending conv m \<and>
      pending conv m' = [] \<and> stream_state r m' \<and>
      inner_chunk_buffer m' = inner_chunk_buffer m"
proof (induction j arbitrary: m)
  case 0
  then show ?case by (simp add: drain_def)
next
  case (Suc j)
  note st = Suc.prems(1) and out = Suc.prems(2) and conv = Suc.prems(3) and pause = Suc.prems(4)
  from Suc.prems(5) obtain p ps where ne: "pending conv m = p # ps" and len: "length ps = j"
    by (cases "pending conv m") auto
  let ?m1 = "worker_get ratecv now m"
  let ?m2 = "worker_play cb now ?m1"
  from cb out have cb': "\<forall>b. cb b (output_sample_rate m) = None" by simp
  note g = stream_worker_get [where ratecv = ratecv and m = m and r = r and now = now
      and conv = conv, OF st conv]
  from g have st1: "stream_state r ?m1" and out1: "output_sample_rate ?m1 = out"
    and p1: "pause_until_timestamp ?m1 = pause_until_timestamp m"
    and b1: "inner_chunk_buffer ?m1 = inner_chunk_buffer m"
    using out by simp_all
  from cb out1 have cb1: "\<forall>b. cb b (output_sample_rate ?m1) = None" by simp
  note p = stream_worker_play [where cb = cb and m = ?m1 and r = r and now = now
      and conv = conv, OF st1 cb1]
  from p have st2: "stream_state r ?m2" and out2: "output_sample_rate ?m2 = out"
    and p2: "pause_until_timestamp ?m2 \<le> now"
    and b2: "inner_chunk_buffer ?m2 = inner_chunk_buffer m"
    using out1 p1 pause b1 by simp_all
  from stream_pair_progress [where m = m and r = r and ratecv = ratecv and conv = conv
      and cb = cb and now = now and p = p and ps = ps, OF st conv cb' pause ne]
  have pl2: "played ?m2 = played m @ [p]" and pe2: "pending conv ?m2 = ps" by simp_all
  have conv2: "\<forall>c. int (length c) = chunk_size_bytes r \<longrightarrow>
        upsample_chunk_to_output_sample_rate ratecv ?m2 c r = Inr (conv c)"
    using conv upsample_chunk_only_rate [of ?m2 m] out out2 by simp
  from pe2 len have len2: "length (pending conv ?m2) = j" by simp
  from Suc.IH [OF st2 out2 conv2 p2 len2]
  obtain m' where "run ratecv cb (drain now j) ?m2 = Some m'"
    "played m' = played ?m2 @ pending conv ?m2" "pending conv m' = []" "stream_state r m'"
    "inner_chunk_buffer m' = inner_chunk_buffer ?m2"
    by blast
  then show ?case using pl2 pe2 ne b2 by (simp add: drain_def)
qed

lemma repeat_frame_length:
  assumes ten: "r mod 10 = 0" and pos: "0 < r"
    and mult: "output_sample_rate m mod r = 0" and ratio: "1 < output_sample_rate m div r"
    and len: "int (length c) = chunk_size_bytes r"
    and up: "upsample_chunk_to_output_sample_rate ratecv m c r = Inr u"
  shows "int (length u) = chunk_size_bytes (output_sample_rate m)"
proof -
  let ?out = "output_sample_rate m"
  let ?k = "?out div r"
  from pos have csr: "chunk_size_bytes r = r div 5" by (simp add: chunk_size_bytes_nonneg)
  from ten have five: "r mod 5 = 0" by presburger
  from ten have "even (r div 5)" by presburger
  with len csr have "even (int (length c))" by simp
  then have ev: "even (length c)" by simp
  from frombuffer_even [OF ev] obtain samples
    where fb: "frombuffer_int16 c = Inr samples" and tb: "tobytes samples = c" by blast
  from ratio pos mult have ne: "r \<noteq> ?out" "r \<noteq> 0" by auto
  with up fb mult ratio have u: "u = tobytes (np_repeat samples ?k)"
    by (simp add: upsample_chunk_to_output_sample_rate_def Let_def)
  have "length u = nat ?k * length c"
    unfolding u tb [symmetric] by (simp add: length_tobytes length_np_repeat)
  then have lu: "int (length u) = ?k * (r div 5)"
    using ratio len csr by simp
  from mult have out: "?out = ?k * r" by auto
  from ratio pos have "0 \<le> ?k * r" by simp
  with out have "0 \<le> ?out" by simp
  then have "chunk_size_bytes ?out = ?out div 5" by (rule chunk_size_bytes_nonneg)
  also have "\<dots> = (?k * r) div 5" using out by simp
  also have "\<dots> = ?k * (r div 5)" using five by (simp add: div_mult_swap dvd_eq_mod_eq_0 mult.commute)
  finally show ?thesis using lu by simp
qed

text \<open>
  Claim C6, as amended. Take a manager in a stream state for rate \<open>r\<close> (a new manager is
  in one, by \<open>stream_state_init\<close>) and any run of calls of \<^verbatim>\<open>add_chunk\<close> with rate \<open>r\<close>, of positive frame size,
  mixed in any order with pauses and steps of the worker; let every frame of rate \<open>r\<close>
  convert, to \<open>conv f\<close>, and let the callback never raise. Then the run ends, and the
  calls of the callback so far followed by the frames still pending are the frames the
  calls have completed, converted, in the order of completion, each once, each with the
  output rate. Once no pause is pending, steps of the worker play everything pending, in
  this order. When no call comes more than 150 ms after the one before, the frames are
  the successive frames of all the bytes added. What the callback receives has the frame
  size of the output rate when \<open>r\<close> is the output rate, and when \<open>r\<close> is a multiple of
  10 and the output rate a multiple of \<open>r\<close> with ratio above 1.
\<close>

theorem frames_played_in_order:
  fixes m :: manager and r :: int and es :: "event list" and conv :: "byte list \<Rightarrow> byte list"
  assumes pos: "0 < chunk_size_bytes r"
    and st: "stream_state r m"
    and conv: "\<forall>c. int (length c) = chunk_size_bytes r \<longrightarrow>
        upsample_chunk_to_output_sample_rate ratecv m c r = Inr (conv c)"
    and cb: "\<forall>b. cb b (output_sample_rate m) = None"
    and evs: "list_all (stream_event r) es"
  defines "frames \<equiv>
    stream_frames (nat (chunk_size_bytes r)) (last_chunk_time m) (inner_chunk_buffer m) es"
  shows "\<exists>m'. run ratecv cb es m = Some m' \<and>
      played m' @ pending conv m' =
        played m @ pending conv m @ map (\<lambda>f. (conv f, output_sample_rate m)) frames \<and>
      (\<forall>now. pause_until_timestamp m' \<le> now \<longrightarrow>
         (\<exists>m''. run ratecv cb (drain now (length (pending conv m'))) m' = Some m'' \<and>
            played m'' =
              played m @ pending conv m @ map (\<lambda>f. (conv f, output_sample_rate m)) frames \<and>
            pending conv m'' = [])) \<and>
      (gaps_within (last_chunk_time m) (add_chunk_times es) \<longrightarrow>
         frames = frames_of (nat (chunk_size_bytes r)) (inner_chunk_buffer m @ added_bytes es)) \<and>
      (r = output_sample_rate m \<longrightarrow>
         list_all (\<lambda>f. conv f = f \<and>
            int (length (conv f)) = chunk_size_bytes (output_sample_rate m)) frames) \<and>
      (r mod 10 = 0 \<and> output_sample_rate m mod r = 0 \<and> 1 < output_sample_rate m div r \<longrightarrow>
         list_all (\<lambda>f. int (length (conv f)) = chunk_size_bytes (output_sample_rate m)) frames)"
proof -
  let ?out = "output_sample_rate m"
  let ?n = "nat (chunk_size_bytes r)"
  from stream_run [where cb = cb and out = ?out and r = r and m = m and ratecv = ratecv
      and conv = conv and es = es, OF pos cb st refl conv evs]
  obtain m' where run: "run ratecv cb es m = Some m'" and out': "output_sample_rate m' = ?out"
    and st': "stream_state r m'"
    and line: "played m' @ pending conv m' =
        played m @ pending conv m @ map (\<lambda>f. (conv f, ?out)) frames"
    unfolding frames_def by blast
  have conv': "\<forall>c. int (length c) = chunk_size_bytes r \<longrightarrow>
        upsample_chunk_to_output_sample_rate ratecv m' c r = Inr (conv c)"
    using conv upsample_chunk_only_rate [of m' m] out' by simp
  have dr: "\<exists>m''. run ratecv cb (drain now (length (pending conv m'))) m' = Some m'' \<and>
            played m'' = played m @ pending conv m @ map (\<lambda>f. (conv f, ?out)) frames \<and>
            pending conv m'' = []"
    if "pause_until_timestamp m' \<le> now" for now
    using stream_drain [where cb = cb and out = ?out and r = r and m = m' and ratecv = ratecv
        and conv = conv and now = now, OF cb st' out' conv' that refl] line
    by auto
  have len: "int (length f) = chunk_size_bytes r" if "f \<in> set frames" for f
    using stream_frames_lengths [of f ?n] that pos
    unfolding frames_def by auto
  have same: "conv f = f \<and> int (length (conv f)) = chunk_size_bytes ?out"
    if "r = ?out" "f \<in> set frames" for f
  proof -
    from len [OF that(2)] conv
    have "upsample_chunk_to_output_sample_rate ratecv m f r = Inr (conv f)" by simp
    with that(1) have "conv f = f" by (simp add: upsample_chunk_to_output_sample_rate_def)
    with len [OF that(2)] that(1) show ?thesis by simp
  qed
  have rep: "int (length (conv f)) = chunk_size_bytes ?out"
    if "r mod 10 = 0" "?out mod r = 0" "1 < ?out div r" "f \<in> set frames" for f
  proof -
    from pos have "0 < r" by (simp add: chunk_size_bytes_pos_iff)
    moreover from len [OF that(4)] conv
    have "upsample_chunk_to_output_sample_rate ratecv m f r = Inr (conv f)" by simp
    ultimately show ?thesis
      using repeat_frame_length [OF that(1) _ that(2) that(3) len [OF that(4)]] by blast
  qed
  have c3: "r = ?out \<longrightarrow>
         list_all (\<lambda>f. conv f = f \<and> int (length (conv f)) = chunk_size_bytes ?out) frames"
    unfolding list_all_iff
  proof (intro impI ballI)
    fix f
    assume "r = ?out" "f \<in> set frames"
    then show "conv f = f \<and> int (length (conv f)) = chunk_size_bytes ?out" by (rule same)
  qed
  have c4: "r mod 10 = 0 \<and> ?out mod r = 0 \<and> 1 < ?out div r \<longrightarrow>
         list_all (\<lambda>f. int (length (conv f)) = chunk_size_bytes ?out) frames"
    unfolding list_all_iff
  proof (intro impI ballI)
    fix f
    assume "r mod 10 = 0 \<and> ?out mod r = 0 \<and> 1 < ?out div r" "f \<in> set frames"
    then show "int (length (conv f)) = chunk_size_bytes ?out" using rep by simp
  qed
  have c2: "\<forall>now. pause_until_timestamp m' \<le> now \<longrightarrow>
         (\<exists>m''. run ratecv cb (drain now (length (pending conv m'))) m' = Some m'' \<and>
            played m'' = played m @ pending conv m @ map (\<lambda>f. (conv f, ?out)) frames \<and>
            pending conv m'' = [])"
    using dr by blast
  have c5: "gaps_within (last_chunk_time m) (add_chunk_times es) \<longrightarrow>
         frames = frames_of ?n (inner_chunk_buffer m @ added_bytes es)"
  proof
    assume "gaps_within (last_chunk_time m) (add_chunk_times es)"
    moreover from pos have "0 < ?n" by simp
    moreover from st have "length (inner_chunk_buffer m) < ?n" by (rule stream_state_short)
    ultimately show "frames = frames_of ?n (inner_chunk_buffer m @ added_bytes es)"
      unfolding frames_def by (simp add: stream_frames_no_gap)
  qed
  from run line c2 c5 c3 c4 show ?thesis by (intro exI [of _ m'] conjI)
qed

text \<open>
  The theorem at rate 10 and output rate 20 (frames of two bytes, converted by repeating
  the sample), with a step of the worker between two calls of \<^verbatim>\<open>add_chunk\<close>.
\<close>

theorem frames_played_in_order_witness:
  "0 < chunk_size_bytes 10 \<and> stream_state 10 (init 0 0 20) \<and>
   list_all (stream_event 10)
     [AddChunk (1 / 10) [1, 2, 3] 10, WorkerGet (1 / 10), AddChunk (2 / 10) [4, 5, 6] 10,
      WorkerPlay (2 / 10)] \<and>
   gaps_within (last_chunk_time (init 0 0 20))
     (add_chunk_times [AddChunk (1 / 10) [1, 2, 3] 10, WorkerGet (1 / 10),
        AddChunk (2 / 10) [4, 5, 6] 10, WorkerPlay (2 / 10)]) \<and>
   (\<exists>m' m''.
      run ratecv_unchanged callback_returns
        [AddChunk (1 / 10) [1, 2, 3] 10, WorkerGet (1 / 10), AddChunk (2 / 10) [4, 5, 6] 10,
         WorkerPlay (2 / 10)] (init 0 0 20) = Some m' \<and>
      played m' = [([1, 2, 1, 2], 20)] \<and>
      pending (\<lambda>c. c @ c) m' = [([3, 4, 3, 4], 20), ([5, 6, 5, 6], 20)] \<and>
      run ratecv_unchanged callback_returns (drain 1 2) m' = Some m'' \<and>
      played m'' = [([1, 2, 1, 2], 20), ([3, 4, 3, 4], 20), ([5, 6, 5, 6], 20)] \<and>
      pending (\<lambda>c. c @ c) m'' = []) \<and>
   list_all (\<lambda>f. int (length (f @ f)) = chunk_size_bytes 20) [[1, 2], [3, 4], [5, 6 :: byte]]"
proof -
  let ?rv = ratecv_unchanged
  let ?cb = callback_returns
  let ?conv = "\<lambda>c :: byte list. c @ c"
  let ?es = "[AddChunk (1 / 10) [1, 2, 3] 10, WorkerGet (1 / 10), AddChunk (2 / 10) [4, 5, 6] 10,
      WorkerPlay (2 / 10)]"
  let ?m = "init 0 0 20"
  have pos: "0 < chunk_size_bytes 10" by (simp add: chunk_size_bytes_nonneg)
  have st: "stream_state 10 ?m" by (simp add: stream_state_def init_def chunk_size_bytes_nonneg)
  have conv: "\<forall>c. int (length c) = chunk_size_bytes 10 \<longrightarrow>
      upsample_chunk_to_output_sample_rate ?rv ?m c 10 = Inr (?conv c)"
  proof (intro allI impI)
    fix c :: "byte list"
    assume "int (length c) = chunk_size_bytes 10"
    then have "length c = 2" by (simp add: chunk_size_bytes_nonneg)
    then obtain a b where "c = [a, b]"
      by (cases c; cases "tl c") (auto simp: length_Suc_conv)
    then show "upsample_chunk_to_output_sample_rate ?rv ?m c 10 = Inr (?conv c)"
      by (simp add: upsample_chunk_to_output_sample_rate_def init_def tobytes_def np_repeat_def
          eval_nat_numeral)
  qed
  have cb: "\<forall>b. ?cb b (output_sample_rate ?m) = None" by (simp add: callback_returns_def)
  have evs: "list_all (stream_event 10) ?es" by simp
  have gaps: "gaps_within (last_chunk_time ?m) (add_chunk_times ?es)" by (simp add: init_def)
  have fr: "stream_frames (nat (chunk_size_bytes 10)) (last_chunk_time ?m) (inner_chunk_buffer ?m) ?es =
      [[1, 2], [3, 4], [5, 6]]"
    by (simp add: frames_of_def chunk_size_bytes_nonneg init_def upt_conv_Cons)
  have start: "played ?m = []" "pending ?conv ?m = []" "output_sample_rate ?m = 20"
    by (simp_all add: init_def pending_def)
  from frames_played_in_order [where ratecv = ?rv and cb = ?cb and conv = ?conv and r = 10
      and m = ?m and es = ?es, OF pos st conv cb evs, unfolded fr start]
  obtain m' where run: "run ?rv ?cb ?es ?m = Some m'"
    and line: "played m' @ pending ?conv m' =
      [] @ [] @ map (\<lambda>f. (f @ f, 20)) [[1, 2], [3, 4], [5, 6]]"
    and dr: "\<forall>now. pause_until_timestamp m' \<le> now \<longrightarrow>
         (\<exists>m''. run ?rv ?cb (drain now (length (pending ?conv m'))) m' = Some m'' \<and>
            played m'' = [] @ [] @ map (\<lambda>f. (f @ f, 20)) [[1, 2], [3, 4], [5, 6]] \<and>
            pending ?conv m'' = [])"
    and sz: "(10 :: int) mod 10 = 0 \<and> (20 :: int) mod 10 = 0 \<and> (1 :: int) < 20 div 10 \<longrightarrow>
         list_all (\<lambda>f. int (length (f @ f)) = chunk_size_bytes 20) [[1, 2], [3, 4], [5, 6 :: byte]]"
    by blast
  have val: "run ?rv ?cb ?es ?m =
      Some (?m\<lparr>last_chunk_time := 2 / 10, audio_thread := Running,
          audio_queue := [([3, 4], 10), ([5, 6], 10)], played := [([1, 2, 1, 2], 20)]\<rparr>)"
    by (simp add: run_simps add_chunk_def add_chunk_loop.simps add_chunk_body_def
        slice_to_def slice_from_def chunk_size_bytes_nonneg tobytes_def np_repeat_def
        eval_nat_numeral)
  with run have m': "m' = ?m\<lparr>last_chunk_time := 2 / 10, audio_thread := Running,
          audio_queue := [([3, 4], 10), ([5, 6], 10)], played := [([1, 2, 1, 2], 20)]\<rparr>"
    by simp
  have pl: "played m' = [([1, 2, 1, 2], 20)]"
    and pe: "pending ?conv m' = [([3, 4, 3, 4], 20), ([5, 6, 5, 6], 20)]"
    and pa: "pause_until_timestamp m' \<le> 1"
    unfolding m' by (simp_all add: pending_def init_def)
  have two: "length (pending ?conv m') = 2" unfolding pe by simp
  from dr [rule_format, OF pa, unfolded two]
  obtain m'' where "run ?rv ?cb (drain 1 2) m' = Some m''"
    "played m'' = [([1, 2, 1, 2], 20), ([3, 4, 3, 4], 20), ([5, 6, 5, 6], 20)]"
    "pending ?conv m'' = []"
    by auto
  with run pl pe have ex: "\<exists>m' m''. run ?rv ?cb ?es ?m = Some m' \<and>
      played m' = [([1, 2, 1, 2], 20)] \<and>
      pending ?conv m' = [([3, 4, 3, 4], 20), ([5, 6, 5, 6], 20)] \<and>
      run ?rv ?cb (drain 1 2) m' = Some m'' \<and>
      played m'' = [([1, 2, 1, 2], 20), ([3, 4, 3, 4], 20), ([5, 6, 5, 6], 20)] \<and>
      pending ?conv m'' = []"
    by blast
  from sz have sizes: "list_all (\<lambda>f. int (length (f @ f)) = chunk_size_bytes 20)
      [[1, 2], [3, 4], [5, 6 :: byte]]" by simp
  from pos st evs gaps ex sizes show ?thesis by (intro conjI)
qed

text \<open>
  The claim as stated fails. At 11025 Hz the frame has 2205 bytes; with output rate
  22050 the conversion of this frame raises, the callback is never called for it and the
  worker has ended. And at rate 12 with output rate 60 the frame of 2 bytes is played as
  10 bytes, where the frame size of the output rate is 12.
\<close>

theorem frames_counterexample:
  "run ratecv_unchanged callback_returns
       [AddChunk 1 (replicate 2205 0) 11025, WorkerGet 1, WorkerPlay 1]
       (init 0 0 22050) =
     Some ((init 0 0 22050)\<lparr>last_chunk_time := 1, audio_thread := Raised ValueError\<rparr>) \<and>
   run ratecv_unchanged callback_returns
       [AddChunk 1 [1, 2] 12, WorkerGet 1, WorkerPlay 1]
       (init 0 0 60) =
     Some ((init 0 0 60)\<lparr>last_chunk_time := 1, audio_thread := Running,
        played := [([1, 2, 1, 2, 1, 2, 1, 2, 1, 2], 60)]\<rparr>) \<and>
   chunk_size_bytes 60 = 12"
proof -
  have a: "run ratecv_unchanged callback_returns
       [AddChunk 1 (replicate 2205 0) 11025, WorkerGet 1, WorkerPlay 1]
       (init 0 0 22050) =
     Some ((init 0 0 22050)\<lparr>last_chunk_time := 1, audio_thread := Raised ValueError\<rparr>)"
    by (simp add: run_simps add_chunk_def add_chunk_loop.simps add_chunk_body_def
        slice_to_def slice_from_def chunk_size_bytes_nonneg frombuffer_odd)
  have b: "run ratecv_unchanged callback_returns
       [AddChunk 1 [1, 2] 12, WorkerGet 1, WorkerPlay 1]
       (init 0 0 60) =
     Some ((init 0 0 60)\<lparr>last_chunk_time := 1, audio_thread := Running,
        played := [([1, 2, 1, 2, 1, 2, 1, 2, 1, 2], 60)]\<rparr>)"
    by (simp add: run_simps add_chunk_def add_chunk_loop.simps add_chunk_body_def
        slice_to_def slice_from_def chunk_size_bytes_nonneg
        tobytes_def np_repeat_def eval_nat_numeral)
  have c: "chunk_size_bytes 60 = 12" by (simp add: chunk_size_bytes_nonneg)
  from a b c show ?thesis by (intro conjI)
qed

subsection \<open>At most one worker\<close>

lemma lifecycle_inv_init: "lifecycle_inv lifecycle_init"
  by (simp add: lifecycle_inv_def lifecycle_init_def)

lemma lifecycle_step_inv:
  assumes inv: "lifecycle_inv s" and step: "lifecycle_step a s = Some s'"
  shows "lifecycle_inv s'"
proof -
  from inv have sub: "live s \<subseteq> (case thread_ref s of None \<Rightarrow> {} | Some t \<Rightarrow> {t})"
    and lock: "\<And>i. holds_lock (pc s i) \<longleftrightarrow> lock_holder s = Some i"
    and none: "\<And>i. pc s i = AtCreate \<or> pc s i = AtStart \<Longrightarrow> live s = {}"
    unfolding lifecycle_inv_def by blast+
  show ?thesis
  proof (cases a)
    case (Enter i)
    with step have pc: "pc s i = Outside" and s': "s' = s\<lparr>pc := (pc s)(i := AtCheck)\<rparr>"
      by (auto split: if_splits)
    from pc lock [of i] have "lock_holder s \<noteq> Some i" by simp
    with sub lock none show ?thesis unfolding s' lifecycle_inv_def by auto
  next
    case (Check i)
    with step have pc: "pc s i = AtCheck"
      and s': "s' = s\<lparr>pc := (pc s)(i := (if \<not> (thread_ref s = None \<or> \<not> ref_alive s)
                                        then Outside else AtLock))\<rparr>"
      by (auto split: if_splits)
    from pc lock [of i] have "lock_holder s \<noteq> Some i" by simp
    with sub lock none show ?thesis unfolding s' lifecycle_inv_def by auto
  next
    case (Acquire i)
    with step have pc: "pc s i = AtLock" and free: "lock_holder s = None"
      and s': "s' = s\<lparr>lock_holder := Some i, pc := (pc s)(i := AtRecheck)\<rparr>"
      by (auto split: if_splits)
    from free lock have "\<And>j. \<not> holds_lock (pc s j)" by simp
    with sub none show ?thesis unfolding s' lifecycle_inv_def by auto
  next
    case (Recheck i)
    with step have pc: "pc s i = AtRecheck"
      and s': "s' = s\<lparr>pc := (pc s)(i := (if thread_ref s = None \<or> \<not> ref_alive s
                                        then AtCreate else AtRelease))\<rparr>"
      by (auto split: if_splits)
    from pc lock [of i] have mine: "lock_holder s = Some i" by simp
    have empty: "live s = {}" if "thread_ref s = None \<or> \<not> ref_alive s"
      using that sub by (auto simp: ref_alive_def split: option.splits)
    from sub lock none mine empty show ?thesis unfolding s' lifecycle_inv_def by auto
  next
    case (Create i)
    with step have pc: "pc s i = AtCreate"
      and s': "s' = s\<lparr>thread_ref := Some (created s), created := Suc (created s),
                   pc := (pc s)(i := AtStart)\<rparr>"
      by (auto split: if_splits)
    from pc none [of i] have empty: "live s = {}" by simp
    from pc lock [of i] have mine: "lock_holder s = Some i" by simp
    from lock none mine empty show ?thesis unfolding s' lifecycle_inv_def by auto
  next
    case (Start i)
    with step have pc: "pc s i = AtStart"
      and s': "s' = s\<lparr>live := (case thread_ref s of None \<Rightarrow> live s | Some t \<Rightarrow> insert t (live s)),
                   pc := (pc s)(i := AtRelease)\<rparr>"
      by (auto split: if_splits)
    from pc none [of i] have empty: "live s = {}" by simp
    from pc lock [of i] have mine: "lock_holder s = Some i" by simp
    have others: "pc s j \<noteq> AtCreate \<and> pc s j \<noteq> AtStart" if "j \<noteq> i" for j
      using lock [of j] mine that by auto
    from lock mine empty others show ?thesis unfolding s' lifecycle_inv_def
      by (auto split: option.splits)
  next
    case (Release i)
    with step have pc: "pc s i = AtRelease"
      and s': "s' = s\<lparr>lock_holder := None, pc := (pc s)(i := Outside)\<rparr>"
      by (auto split: if_splits)
    from pc lock [of i] have mine: "lock_holder s = Some i" by simp
    have others: "\<not> holds_lock (pc s j)" if "j \<noteq> i" for j
      using lock [of j] mine that by auto
    have others': "pc s j \<noteq> AtCreate \<and> pc s j \<noteq> AtStart" if "j \<noteq> i" for j
      using others [OF that] by (cases "pc s j") simp_all
    from sub others others' show ?thesis unfolding s' lifecycle_inv_def by auto
  next
    case (WorkerEnds t)
    with step have s': "s' = s\<lparr>live := live s - {t}\<rparr>"
      by (simp split: if_splits)
    from sub lock none show ?thesis unfolding s' lifecycle_inv_def
      by (auto split: option.splits)
  qed
qed

lemma lifecycle_run_inv:
  "lifecycle_inv s \<Longrightarrow> lifecycle_run as s = Some s' \<Longrightarrow> lifecycle_inv s'"
proof (induction as arbitrary: s)
  case Nil
  then show ?case by simp
next
  case (Cons a as)
  from Cons.prems(2) obtain s1 where s1: "lifecycle_step a s = Some s1"
    and rest: "lifecycle_run as s1 = Some s'"
    by (auto split: option.splits)
  from Cons.prems(1) s1 have "lifecycle_inv s1" by (rule lifecycle_step_inv)
  then show ?case using rest by (rule Cons.IH)
qed

lemma lifecycle_inv_one: "lifecycle_inv s \<Longrightarrow> finite (live s) \<and> card (live s) \<le> 1"
proof -
  assume "lifecycle_inv s"
  then have sub: "live s \<subseteq> (case thread_ref s of None \<Rightarrow> {} | Some t \<Rightarrow> {t})"
    by (simp add: lifecycle_inv_def)
  show ?thesis
  proof (cases "thread_ref s")
    case None
    with sub show ?thesis by simp
  next
    case (Some t)
    with sub have "live s \<subseteq> {t}" by simp
    then have "live s = {} \<or> live s = {t}" by blast
    then show ?thesis by auto
  qed
qed

text \<open>
  Claim C9. In every state that calls of \<^verbatim>\<open>add_chunk_inner\<close> from any number of threads
  can reach, their steps interleaved in any order with each other and with the ending of
  workers, at most one worker is alive. A thread is started only by the caller that holds
  the lock, after its test under the lock, and only when no worker is alive.
\<close>

theorem at_most_one_worker:
  assumes "lifecycle_run as lifecycle_init = Some s"
  shows "finite (live s) \<and> card (live s) \<le> 1 \<and>
    (\<forall>i s'. lifecycle_step (Start i) s = Some s' \<longrightarrow>
       lock_holder s = Some i \<and> live s = {} \<and> card (live s') \<le> 1)"
proof -
  from lifecycle_inv_init assms have inv: "lifecycle_inv s" by (rule lifecycle_run_inv)
  have "lock_holder s = Some i \<and> live s = {} \<and> card (live s') \<le> 1"
    if st: "lifecycle_step (Start i) s = Some s'" for i s'
  proof -
    from st have pc: "pc s i = AtStart" by (simp split: if_splits)
    with inv have "lock_holder s = Some i" "live s = {}"
      by (auto simp: lifecycle_inv_def)
    moreover from inv st have "lifecycle_inv s'" by (rule lifecycle_step_inv)
    then have "card (live s') \<le> 1" using lifecycle_inv_one by blast
    ultimately show ?thesis by simp
  qed
  with lifecycle_inv_one [OF inv] show ?thesis by blast
qed

text \<open>
  The theorem for two callers that both pass the first test before either takes the lock:
  the first one starts a worker, the second one finds it alive under the lock.
\<close>

theorem at_most_one_worker_witness:
  "\<exists>s. lifecycle_run [Enter 0, Enter 1, Check 0, Check 1, Acquire 0, Recheck 0, Create 0,
          Start 0, Release 0, Acquire 1, Recheck 1, Release 1] lifecycle_init = Some s \<and>
       live s = {0} \<and> thread_ref s = Some 0 \<and> created s = 1 \<and> lock_holder s = None \<and>
       finite (live s) \<and> card (live s) \<le> 1"
proof -
  have "\<exists>s. lifecycle_run [Enter 0, Enter 1, Check 0, Check 1, Acquire 0, Recheck 0, Create 0,
          Start 0, Release 0, Acquire 1, Recheck 1, Release 1] lifecycle_init = Some s \<and>
       live s = {0} \<and> thread_ref s = Some 0 \<and> created s = 1 \<and> lock_holder s = None"
    by (simp add: lifecycle_init_def ref_alive_def)
  then obtain s where r: "lifecycle_run [Enter 0, Enter 1, Check 0, Check 1, Acquire 0,
          Recheck 0, Create 0, Start 0, Release 0, Acquire 1, Recheck 1, Release 1]
          lifecycle_init = Some s"
    and f: "live s = {0}" "thread_ref s = Some 0" "created s = 1" "lock_holder s = None"
    by blast
  from at_most_one_worker [OF r] have "finite (live s) \<and> card (live s) \<le> 1" by blast
  with r f show ?thesis by blast
qed

end
